theory Spec2Isabelle
  imports Complex_Main "HOL-Library.Char_ord" "HOL-Library.List_Lexorder" "HOL-Library.Multiset"
begin

section \<open>Data model\<close>

text \<open>
  The dashboard of \<^verbatim>\<open>streamlit_app.py\<close> works on pandas data frames. A frame is modelled
  as the list of its rows, a row as a record with one field per column. Numeric columns
  hold exact rationals (the rounding of 64-bit floats is not modelled), the five service
  flags are the integers the file stores (the code compares them with 0 and 1 and adds them
  up), and a missing cell (NaN) of a computed column is \<open>None\<close>.
\<close>

datatype error = ValueError | ZeroDivisionError

text \<open>The rows of \<^verbatim>\<open>demographics.csv\<close> (columns prefixed \<open>d_\<close>).\<close>

record demographics_row =
  d_respondent_id :: int
  d_province :: string
  d_urban_rural :: string
  d_age :: int
  d_education :: string
  d_monthly_income_rwf :: rat

text \<open>The rows of \<^verbatim>\<open>financial_services.csv\<close> (columns prefixed \<open>f_\<close>).\<close>

record financial_services_row =
  f_respondent_id :: int
  f_has_bank_account :: int
  f_uses_mobile_money :: int
  f_has_savings :: int
  f_has_loan :: int
  f_uses_insurance :: int
  f_financial_literacy_score :: rat

text \<open>The rows of the merged frame, and of the prepared frame with its two derived columns.\<close>

record merged_row =
  respondent_id :: int
  province :: string
  urban_rural :: string
  age :: int
  education :: string
  monthly_income_rwf :: rat
  has_bank_account :: int
  uses_mobile_money :: int
  has_savings :: int
  has_loan :: int
  uses_insurance :: int
  financial_literacy_score :: rat

record row = merged_row +
  any_formal_service :: bool
  income_quintile :: "string option"

section \<open>Library operations used by the preparation\<close>

text \<open>
  \<^verbatim>\<open>demographics.merge(financial_services, on='respondent_id', how='inner')\<close>: every pair of
  a left and a right row with the same key, in the order of the left rows.
\<close>

definition join_rows :: "demographics_row \<Rightarrow> financial_services_row \<Rightarrow> merged_row" where
  "join_rows d f =
     \<lparr>respondent_id = d_respondent_id d, province = d_province d,
      urban_rural = d_urban_rural d, age = d_age d, education = d_education d,
      monthly_income_rwf = d_monthly_income_rwf d,
      has_bank_account = f_has_bank_account f, uses_mobile_money = f_uses_mobile_money f,
      has_savings = f_has_savings f, has_loan = f_has_loan f,
      uses_insurance = f_uses_insurance f,
      financial_literacy_score = f_financial_literacy_score f\<rparr>"

definition merge_inner ::
  "demographics_row list \<Rightarrow> financial_services_row list \<Rightarrow> merged_row list" where
  "merge_inner ds fs =
     concat (map (\<lambda>d. map (join_rows d)
                         (filter (\<lambda>f. f_respondent_id f = d_respondent_id d) fs)) ds)"

text \<open>
  \<^verbatim>\<open>bins.searchsorted(x, side='left')\<close> on ascending bin edges: the insertion point of a
  value is the number of edges strictly below it.
\<close>

definition searchsorted_left :: "rat list \<Rightarrow> rat \<Rightarrow> nat" where
  "searchsorted_left bins v = length (filter (\<lambda>b. b < v) bins)"

text \<open>
  The binning shared by \<^verbatim>\<open>pd.cut\<close> and \<^verbatim>\<open>pd.qcut\<close> (right-closed intervals): duplicate
  edges raise \<^verbatim>\<open>ValueError("Bin edges must be unique")\<close>; a value at insertion point \<open>i\<close>
  lies in the interval \<open>(bins[i-1], bins[i]]\<close> and gets the label \<open>i - 1\<close>; with
  \<open>include_lowest\<close> the values equal to the first edge are put into the first interval;
  insertion points \<open>0\<close> and \<open>len(bins)\<close> are outside every interval and give NaN.
\<close>

definition bin_index :: "rat list \<Rightarrow> bool \<Rightarrow> rat \<Rightarrow> nat" where
  "bin_index bins include_lowest v =
     (if include_lowest \<and> v = hd bins then 1 else searchsorted_left bins v)"

definition bin_label :: "rat list \<Rightarrow> string list \<Rightarrow> bool \<Rightarrow> rat \<Rightarrow> string option" where
  "bin_label bins labels include_lowest v =
     (let i = bin_index bins include_lowest v
      in if i = 0 \<or> i = length bins then None else Some (labels ! (i - 1)))"

definition bins_to_cuts ::
  "rat list \<Rightarrow> rat list \<Rightarrow> string list \<Rightarrow> bool \<Rightarrow> error + string option list" where
  "bins_to_cuts x bins labels include_lowest =
     (if \<not> distinct bins then Inl ValueError
      else Inr (map (bin_label bins labels include_lowest) x))"

text \<open>
  The \<open>k/q\<close> quantile of a column with linear interpolation: the virtual index
  \<open>(n - 1) * k / q\<close> is split into its integer part \<open>lo\<close> and its fraction, and the result
  interpolates between the sorted values at \<open>lo\<close> and at \<open>lo + 1\<close> (clipped to the last
  index).
\<close>

definition quantile :: "rat list \<Rightarrow> nat \<Rightarrow> nat \<Rightarrow> rat" where
  "quantile x k q =
     (let s = sort x; n = length s;
          lo = (k * (n - 1)) div q;
          hi = min (lo + 1) (n - 1);
          frac = of_nat ((k * (n - 1)) mod q) / of_nat q
      in s ! lo + (s ! hi - s ! lo) * frac)"

text \<open>
  \<^verbatim>\<open>pd.qcut(x, q, labels)\<close>: the edges are the quantiles \<open>0/q, 1/q, ..., q/q\<close> of the column,
  binned with \<open>include_lowest\<close>. On an empty column every quantile is NaN, so the edges are
  not unique and the same \<^verbatim>\<open>ValueError\<close> is raised.
\<close>

definition qcut :: "rat list \<Rightarrow> nat \<Rightarrow> string list \<Rightarrow> error + string option list" where
  "qcut x q labels =
     (if x = [] then Inl ValueError
      else bins_to_cuts x (map (\<lambda>k. quantile x k q) [0..<q + 1]) labels True)"

section \<open>prepare_analysis_data\<close>

definition quintile_labels :: "string list" where
  "quintile_labels = [''Q1'', ''Q2'', ''Q3'', ''Q4'', ''Q5'']"

definition derive_row :: "merged_row \<Rightarrow> string option \<Rightarrow> row" where
  "derive_row m quintile =
     merged_row.extend m
       (row.fields
          (has_bank_account m = 1 \<or> uses_mobile_money m = 1 \<or> has_savings m = 1)
          quintile)"

definition prepare_analysis_data ::
  "demographics_row list \<Rightarrow> financial_services_row list \<Rightarrow> error + row list" where
  "prepare_analysis_data demographics financial_services =
     (let df = merge_inner demographics financial_services
      in case qcut (map monthly_income_rwf df) 5 quintile_labels of
           Inl e \<Rightarrow> Inl e
         | Inr quintiles \<Rightarrow> Inr (map (\<lambda>(m, c). derive_row m c) (zip df quintiles)))"

section \<open>Library operations used by the views\<close>

text \<open>
  \<open>Series.mean()\<close>: NaN on an empty column. Arithmetic on NaN gives NaN.
\<close>

definition mean :: "rat list \<Rightarrow> rat option" where
  "mean xs = (if xs = [] then None else Some (sum_list xs / of_nat (length xs)))"

definition flag_mean :: "('a \<Rightarrow> int) \<Rightarrow> 'a list \<Rightarrow> rat option" where
  "flag_mean col rs = mean (map (\<lambda>r. of_int (col r)) rs)"

definition bool_mean :: "('a \<Rightarrow> bool) \<Rightarrow> 'a list \<Rightarrow> rat option" where
  "bool_mean col rs = mean (map (\<lambda>r. of_bool (col r)) rs)"

definition num_mean :: "('a \<Rightarrow> rat) \<Rightarrow> 'a list \<Rightarrow> rat option" where
  "num_mean col rs = mean (map col rs)"

definition nan_minus :: "rat option \<Rightarrow> rat option \<Rightarrow> rat option" where
  "nan_minus a b = (case (a, b) of (Some x, Some y) \<Rightarrow> Some (x - y) | _ \<Rightarrow> None)"

text \<open>
  \<open>df.groupby(col)\<close> on a string column: one group per value that occurs, the keys in
  ascending order. On a categorical column (\<open>age_group\<close>, \<open>income_quintile\<close>) the groups
  are the categories in their declared order, also the empty ones (the default
  \<open>observed=False\<close>), and rows whose cell is NaN belong to no group.
\<close>

definition groupby :: "('a \<Rightarrow> string) \<Rightarrow> 'a list \<Rightarrow> (string \<times> 'a list) list" where
  "groupby col rs =
     map (\<lambda>k. (k, filter (\<lambda>r. col r = k) rs)) (sort (remdups (map col rs)))"

definition groupby_categorical ::
  "string list \<Rightarrow> ('a \<Rightarrow> string option) \<Rightarrow> 'a list \<Rightarrow> (string \<times> 'a list) list" where
  "groupby_categorical categories col rs =
     map (\<lambda>c. (c, filter (\<lambda>r. col r = Some c) rs)) categories"

text \<open>\<open>Series.value_counts().sort_index()\<close>: the values that occur, ascending, with their counts.\<close>

definition value_counts_sort_index :: "int list \<Rightarrow> (int \<times> nat) list" where
  "value_counts_sort_index xs =
     map (\<lambda>v. (v, length (filter (\<lambda>x. x = v) xs))) (sort (remdups xs))"

text \<open>
  \<open>pd.cut(x, bins, labels)\<close> with its defaults \<open>right=True, include_lowest=False\<close>.
\<close>

definition cut :: "rat list \<Rightarrow> rat list \<Rightarrow> string list \<Rightarrow> error + string option list" where
  "cut x bins labels = bins_to_cuts x bins labels False"

text \<open>
  \<open>DataFrame.sort_values(by, ascending=True)\<close>: the rows whose key is NaN go last, the others
  are ordered by the library's sorting routine. The code leaves \<open>kind\<close> at its default
  \<open>'quicksort'\<close>; that routine is a parameter \<open>srt\<close> of the model, and what the library
  documents about it is \<open>sort_contract\<close>: the result is a rearrangement of the rows with
  ascending keys.
\<close>

definition sort_values ::
  "(('a \<Rightarrow> rat) \<Rightarrow> 'a list \<Rightarrow> 'a list) \<Rightarrow> ('a \<Rightarrow> rat option) \<Rightarrow> 'a list \<Rightarrow> 'a list" where
  "sort_values srt by rs =
     srt (\<lambda>r. the (by r)) (filter (\<lambda>r. by r \<noteq> None) rs) @ filter (\<lambda>r. by r = None) rs"

definition sort_contract :: "(('a \<Rightarrow> rat) \<Rightarrow> 'a list \<Rightarrow> 'a list) \<Rightarrow> bool" where
  "sort_contract srt \<longleftrightarrow>
     (\<forall>f xs. mset (srt f xs) = mset xs \<and> sorted (map f (srt f xs)))"

section \<open>The library's sorting routine\<close>

text \<open>
  With \<open>kind\<close> left at \<open>'quicksort'\<close>, \<open>sort_values\<close> on one numeric column calls numpy's
  \<open>argsort\<close>. Its generic routine \<open>aquicksort\<close> (\<^verbatim>\<open>npysort/quicksort.cpp\<close>) is an introsort
  on the array of row positions: a range of more than 17 positions is partitioned around
  the median of its first, middle and last key, the larger part is put on a stack and the
  smaller part is continued; a range of at most 17 positions is sorted by insertion; a
  range taken from the stack after the depth budget (twice the index of the highest bit
  of the length) is used up is sorted by \<open>aheapsort\<close>. The model works on the list of rows
  in place of the array of their positions, and a range is the list of its rows. The
  vectorised routines that numpy substitutes for \<open>aquicksort\<close> on some processors are
  not modelled.
\<close>

definition swap_at :: "nat \<Rightarrow> nat \<Rightarrow> 'a list \<Rightarrow> 'a list" where
  "swap_at i j xs = xs[i := xs ! j, j := xs ! i]"

text \<open>
  The insertion sort moves each element down past the elements with a strictly greater
  key. \<open>shift_in\<close> works on the sorted prefix in reverse, its last element first.
\<close>

fun shift_in :: "('a \<Rightarrow> rat) \<Rightarrow> 'a \<Rightarrow> 'a list \<Rightarrow> 'a list" where
  "shift_in f x [] = [x]"
| "shift_in f x (y # ys) = (if f x < f y then y # shift_in f x ys else x # y # ys)"

definition insertion_sort :: "('a \<Rightarrow> rat) \<Rightarrow> 'a list \<Rightarrow> 'a list" where
  "insertion_sort f xs = rev (foldl (\<lambda>acc x. shift_in f x acc) [] xs)"

text \<open>
  The partition step. The two scans \<open>do ++pi while (v[*pi] < vp)\<close> and
  \<open>do --pj while (vp < v[*pj])\<close> have no bound in the code: the pivot, parked at the last
  position but one, and the first element, not greater than the pivot after the
  median-of-three step, stop them. The model writes these two bounds out.
\<close>

function scan_up :: "('a \<Rightarrow> rat) \<Rightarrow> rat \<Rightarrow> 'a list \<Rightarrow> nat \<Rightarrow> nat \<Rightarrow> nat" where
  "scan_up f vp xs hi i = (if i < hi \<and> f (xs ! i) < vp then scan_up f vp xs hi (Suc i) else i)"
  by pat_completeness auto
termination
  by (relation "measure (\<lambda>(f, vp, xs, hi, i). hi - i)") auto

function scan_down :: "('a \<Rightarrow> rat) \<Rightarrow> rat \<Rightarrow> 'a list \<Rightarrow> nat \<Rightarrow> nat" where
  "scan_down f vp xs j = (if 0 < j \<and> vp < f (xs ! j) then scan_down f vp xs (j - 1) else j)"
  by pat_completeness auto
termination
  by (relation "measure (\<lambda>(f, vp, xs, j). j)") auto

declare scan_up.simps [simp del] scan_down.simps [simp del]

function hoare ::
  "('a \<Rightarrow> rat) \<Rightarrow> rat \<Rightarrow> nat \<Rightarrow> 'a list \<Rightarrow> nat \<Rightarrow> nat \<Rightarrow> 'a list \<times> nat" where
  "hoare f vp hi xs i j =
     (let i' = scan_up f vp xs hi (Suc i);
          j' = scan_down f vp xs (j - 1)
      in if i' \<ge> j' then (xs, i') else hoare f vp hi (swap_at i' j' xs) i' j')"
  by pat_completeness auto
termination
proof (relation "measure (\<lambda>(f, vp, hi, xs, i, j). j - i)", goal_cases)
  case 1
  then show ?case by simp
next
  case (2 f vp hi xs i j i' j')
  have up: "k \<le> scan_up g v ys h k" for g :: "'a \<Rightarrow> rat" and v ys h k
    by (induction g v ys h k rule: scan_up.induct) (subst scan_up.simps, auto)
  have down: "scan_down g v ys k \<le> k" for g :: "'a \<Rightarrow> rat" and v ys k
    by (induction g v ys k rule: scan_down.induct) (subst scan_down.simps, auto)
  have "Suc i \<le> i'" using 2(1) up by metis
  moreover have "j' \<le> j - 1" using 2(2) down by metis
  moreover have "i' < j'" using 2(3) by simp
  ultimately show ?case by simp
qed

declare hoare.simps [simp del]

definition partition_range :: "('a \<Rightarrow> rat) \<Rightarrow> 'a list \<Rightarrow> 'a list \<times> 'a \<times> 'a list" where
  "partition_range f xs =
     (let pr = length xs - 1;
          pm = pr div 2;
          xs = (if f (xs ! pm) < f (xs ! 0) then swap_at pm 0 xs else xs);
          xs = (if f (xs ! pr) < f (xs ! pm) then swap_at pr pm xs else xs);
          xs = (if f (xs ! pm) < f (xs ! 0) then swap_at pm 0 xs else xs);
          vp = f (xs ! pm);
          xs = swap_at pm (pr - 1) xs;
          (xs, pi) = hoare f vp (pr - 1) xs 0 (pr - 1);
          xs = swap_at pi (pr - 1) xs
      in (take pi xs, xs ! pi, drop (Suc pi) xs))"

text \<open>
  \<open>aheapsort\<close>, with the positions counted from 1 as in the code. \<open>sift\<close> is the inner loop
  \<open>for (i = l, j = l << 1; j <= n;)\<close> that moves the element \<open>tmp\<close> down from position \<open>i\<close>
  (\<open>j\<close> is twice \<open>i\<close>, so positive, in every call; the model writes that out), \<open>heapify\<close>
  is the first loop of the routine, which builds the heap, and \<open>heap_extract\<close> the second,
  which moves the greatest remaining element behind the heap.
\<close>

function sift :: "('a \<Rightarrow> rat) \<Rightarrow> nat \<Rightarrow> 'a \<Rightarrow> 'a list \<Rightarrow> nat \<Rightarrow> nat \<Rightarrow> 'a list" where
  "sift f n tmp xs i j =
     (if 0 < j \<and> j \<le> n then
        (let j = (if j < n \<and> f (xs ! (j - 1)) < f (xs ! j) then j + 1 else j)
         in if f tmp < f (xs ! (j - 1)) then sift f n tmp (xs[i - 1 := xs ! (j - 1)]) j (j + j)
            else xs[i - 1 := tmp])
      else xs[i - 1 := tmp])"
  by pat_completeness auto
termination
  by (relation "measure (\<lambda>(f, n, tmp, xs, i, j). Suc n - j)") auto

declare sift.simps [simp del]

fun heapify :: "('a \<Rightarrow> rat) \<Rightarrow> nat \<Rightarrow> 'a list \<Rightarrow> nat \<Rightarrow> 'a list" where
  "heapify f n xs 0 = xs"
| "heapify f n xs (Suc l) = heapify f n (sift f n (xs ! l) xs (Suc l) (2 * Suc l)) l"

fun heap_extract :: "('a \<Rightarrow> rat) \<Rightarrow> 'a list \<Rightarrow> nat \<Rightarrow> 'a list" where
  "heap_extract f xs 0 = xs"
| "heap_extract f xs (Suc 0) = xs"
| "heap_extract f xs (Suc (Suc m)) =
     heap_extract f (sift f (Suc m) (xs ! Suc m) (xs[Suc m := xs ! 0]) 1 2) (Suc m)"

definition aheapsort :: "('a \<Rightarrow> rat) \<Rightarrow> 'a list \<Rightarrow> 'a list" where
  "aheapsort f xs = heap_extract f (heapify f (length xs) xs (length xs div 2)) (length xs)"

fun npy_get_msb :: "nat \<Rightarrow> nat" where
  "npy_get_msb n = (if n < 2 then 0 else Suc (npy_get_msb (n div 2)))"

declare npy_get_msb.simps [simp del]

text \<open>
  The main loop on one range. \<open>popped\<close> tells that the range was taken from the stack,
  where the depth budget is tested; \<open>cdepth\<close> is the budget left.
\<close>

function sortrange :: "('a \<Rightarrow> rat) \<Rightarrow> bool \<Rightarrow> int \<Rightarrow> 'a list \<Rightarrow> 'a list" where
  "sortrange f popped cdepth xs =
     (if popped \<and> cdepth < 0 then aheapsort f xs
      else if 16 < length xs - 1 then
        (case partition_range f xs of (ys, p, zs) \<Rightarrow>
           if length ys < length zs
           then sortrange f False (cdepth - 1) ys @ p # sortrange f True (cdepth - 1) zs
           else sortrange f True (cdepth - 1) ys @ p # sortrange f False (cdepth - 1) zs)
      else insertion_sort f xs)"
  by pat_completeness auto
termination
proof -
  have up: "scan_up g v ys h k \<le> h" if "k \<le> h" for g :: "'a \<Rightarrow> rat" and v ys h k
    using that by (induction g v ys h k rule: scan_up.induct) (subst scan_up.simps, auto)
  have down: "scan_down g v ys k \<le> k" for g :: "'a \<Rightarrow> rat" and v ys k
    by (induction g v ys k rule: scan_down.induct) (subst scan_down.simps, auto)
  have len: "length (fst (hoare g v h ys i j)) = length ys"
    for g :: "'a \<Rightarrow> rat" and v h ys i j
    by (induction g v h ys i j rule: hoare.induct)
       (subst hoare.simps, auto simp: Let_def swap_at_def)
  have bound: "snd (hoare g v h ys i j) \<le> h" if "i < h" "j \<le> h"
    for g :: "'a \<Rightarrow> rat" and v h ys i j
    using that
  proof (induction g v h ys i j rule: hoare.induct)
    case (1 f vp hi xs i j)
    define i' where "i' = scan_up f vp xs hi (Suc i)"
    define j' where "j' = scan_down f vp xs (j - 1)"
    have i'hi: "i' \<le> hi" unfolding i'_def using "1.prems"(1) by (intro up) simp
    have j'j: "j' \<le> j - 1" unfolding j'_def by (rule down)
    have eq: "hoare f vp hi xs i j
        = (if i' \<ge> j' then (xs, i') else hoare f vp hi (swap_at i' j' xs) i' j')"
      using hoare.simps [of f vp hi xs i j] unfolding i'_def j'_def Let_def .
    show ?case
    proof (cases "i' \<ge> j'")
      case True
      then show ?thesis unfolding eq using i'hi by simp
    next
      case False
      then have "i' < hi" "j' \<le> hi" using j'j "1.prems"(2) by simp_all
      with "1.IH" [OF i'_def j'_def] False
      have "snd (hoare f vp hi (swap_at i' j' xs) i' j') \<le> hi" by simp
      with False show ?thesis unfolding eq by simp
    qed
  qed
  have smaller: "length ys < length xs \<and> length zs < length xs"
    if big: "16 < length xs - Suc 0" and part: "(ys, p, zs) = partition_range f xs"
    for f :: "'a \<Rightarrow> rat" and xs ys p zs
  proof -
    define pr where "pr = length xs - 1"
    define pm where "pm = pr div 2"
    define xs1 where "xs1 = (if f (xs ! pm) < f (xs ! 0) then swap_at pm 0 xs else xs)"
    define xs2 where "xs2 = (if f (xs1 ! pr) < f (xs1 ! pm) then swap_at pr pm xs1 else xs1)"
    define xs3 where "xs3 = (if f (xs2 ! pm) < f (xs2 ! 0) then swap_at pm 0 xs2 else xs2)"
    define xs4 where "xs4 = swap_at pm (pr - 1) xs3"
    define h where "h = hoare f (f (xs3 ! pm)) (pr - 1) xs4 0 (pr - 1)"
    define xs6 where "xs6 = swap_at (snd h) (pr - 1) (fst h)"
    have l: "length xs6 = length xs"
      by (simp add: xs6_def h_def len xs4_def xs3_def xs2_def xs1_def swap_at_def)
    have "0 < pr - 1" using big by (simp add: pr_def)
    then have pi: "snd h \<le> pr - 1" unfolding h_def by (intro bound) simp_all
    have "partition_range f xs = (take (snd h) xs6, xs6 ! snd h, drop (Suc (snd h)) xs6)"
      unfolding partition_range_def Let_def case_prod_unfold xs6_def h_def xs4_def xs3_def
        xs2_def xs1_def pm_def pr_def by (rule refl)
    with part have ys: "ys = take (snd h) xs6" and zs: "zs = drop (Suc (snd h)) xs6"
      by simp_all
    have "length ys < length xs" using pi big by (simp add: ys l pr_def)
    moreover have "length zs < length xs" using big by (simp add: zs l)
    ultimately show ?thesis by simp
  qed
  show ?thesis
    by (relation "measure (\<lambda>(f, popped, cdepth, xs). length xs)") (auto dest: smaller)
qed

declare sortrange.simps [simp del]

definition aquicksort :: "('a \<Rightarrow> rat) \<Rightarrow> 'a list \<Rightarrow> 'a list" where
  "aquicksort f xs = sortrange f False (int (npy_get_msb (length xs) * 2)) xs"

section \<open>The filter of main\<close>

text \<open>
  A view receives the filtered frame as a Python object and may assign columns to it. The
  frame is the list of rows with the columns of the prepared table, together with the two
  columns that views add: \<open>None\<close> while the column does not exist.
\<close>

record frame =
  rows :: "row list"
  age_group :: "string option list option"
  service_count :: "int list option"

text \<open>Lines 100 to 102 of \<open>main\<close>; boolean indexing builds a new frame.\<close>

definition apply_filters :: "row list \<Rightarrow> string list \<Rightarrow> string \<Rightarrow> frame" where
  "apply_filters df selected_provinces urban_rural_filter =
     (let filtered_df = filter (\<lambda>r. province r \<in> set selected_provinces) df;
          filtered_df = (if urban_rural_filter \<noteq> ''All''
                         then filter (\<lambda>r. urban_rural r = urban_rural_filter) filtered_df
                         else filtered_df)
      in \<lparr>rows = filtered_df, age_group = None, service_count = None\<rparr>)"

section \<open>The six views\<close>

text \<open>
  Each view is modelled by the values it computes and hands to the widgets and charts, and
  by the frame as the view leaves it. The formatting of numbers and the drawing are not
  modelled.
\<close>

record executive_overview =
  formal_inclusion :: "rat option"
  mobile_money :: "rat option"
  mobile_vs_banking :: "rat option"
  avg_literacy :: "rat option"
  excluded_count :: nat
  excluded_share :: rat
  adoption_rates :: "(string \<times> rat option) list"
  comparison_data :: "(string \<times> rat option \<times> rat option \<times> rat option) list"

text \<open>
  The fourth metric divides \<open>excluded_count\<close> by \<open>len(df)\<close>, two Python integers: on a frame
  without rows this raises \<open>ZeroDivisionError\<close>.
\<close>

definition show_executive_overview :: "frame \<Rightarrow> error + executive_overview \<times> frame" where
  "show_executive_overview df =
     (let rs = rows df;
          excluded = length (filter (\<lambda>r. any_formal_service r = False) rs)
      in if length rs = 0 then Inl ZeroDivisionError
         else Inr
          (\<lparr>formal_inclusion = bool_mean any_formal_service rs,
            mobile_money = flag_mean uses_mobile_money rs,
            mobile_vs_banking =
              nan_minus (flag_mean uses_mobile_money rs) (flag_mean has_bank_account rs),
            avg_literacy = num_mean financial_literacy_score rs,
            excluded_count = excluded,
            excluded_share = of_nat excluded / of_nat (length rs),
            adoption_rates =
              [(''Bank Account'', flag_mean has_bank_account rs),
               (''Mobile Money'', flag_mean uses_mobile_money rs),
               (''Savings'', flag_mean has_savings rs),
               (''Loans'', flag_mean has_loan rs),
               (''Insurance'', flag_mean uses_insurance rs)],
            comparison_data =
              map (\<lambda>(k, g). (k, flag_mean has_bank_account g, flag_mean uses_mobile_money g,
                              bool_mean any_formal_service g))
                  (groupby urban_rural rs)\<rparr>,
           df))"

record demographic_analysis =
  edu_analysis :: "(string \<times> rat option \<times> rat option \<times> rat option) list"
  age_analysis :: "(string \<times> rat option \<times> rat option) list"

definition age_bins :: "rat list" where
  "age_bins = [0, 25, 35, 45, 55, 100]"

definition age_labels :: "string list" where
  "age_labels = [''18-25'', ''26-35'', ''36-45'', ''46-55'', ''56+'']"

text \<open>The view assigns the column \<open>age_group\<close> to the frame it was given.\<close>

definition show_demographic_analysis :: "frame \<Rightarrow> error + demographic_analysis \<times> frame" where
  "show_demographic_analysis df =
     (let rs = rows df;
          edu = map (\<lambda>(k, g). (k, bool_mean any_formal_service g,
                                  num_mean financial_literacy_score g,
                                  num_mean monthly_income_rwf g))
                    (groupby education rs)
      in case cut (map (\<lambda>r. of_int (age r)) rs) age_bins age_labels of
           Inl e \<Rightarrow> Inl e
         | Inr groups \<Rightarrow>
             Inr (\<lparr>edu_analysis = edu,
                   age_analysis =
                     map (\<lambda>(k, g). (k, flag_mean (\<lambda>(c, r). uses_mobile_money r) g,
                                     flag_mean (\<lambda>(c, r). has_bank_account r) g))
                         (groupby_categorical age_labels fst (zip groups rs))\<rparr>,
                  df\<lparr>age_group := Some groups\<rparr>))"

record province_stat =
  ps_province :: string
  ps_any_formal_service :: "rat option"
  ps_uses_mobile_money :: "rat option"
  ps_has_bank_account :: "rat option"
  ps_monthly_income_rwf :: "rat option"
  ps_financial_literacy_score :: "rat option"

definition province_groups :: "row list \<Rightarrow> province_stat list" where
  "province_groups rs =
     map (\<lambda>(k, g). \<lparr>ps_province = k,
                     ps_any_formal_service = bool_mean any_formal_service g,
                     ps_uses_mobile_money = flag_mean uses_mobile_money g,
                     ps_has_bank_account = flag_mean has_bank_account g,
                     ps_monthly_income_rwf = num_mean monthly_income_rwf g,
                     ps_financial_literacy_score = num_mean financial_literacy_score g\<rparr>)
         (groupby province rs)"

definition show_provincial_analysis ::
  "((province_stat \<Rightarrow> rat) \<Rightarrow> province_stat list \<Rightarrow> province_stat list) \<Rightarrow>
   frame \<Rightarrow> error + province_stat list \<times> frame" where
  "show_provincial_analysis srt df =
     Inr (sort_values srt ps_any_formal_service (province_groups (rows df)), df)"

record service_usage =
  service_dist :: "(int \<times> nat) list"
  income_service :: "(string \<times> rat option \<times> rat option \<times> rat option \<times> rat option) list"

definition count_services :: "row \<Rightarrow> int" where
  "count_services r =
     has_bank_account r + uses_mobile_money r + has_savings r + has_loan r + uses_insurance r"

text \<open>The view assigns the column \<open>service_count\<close> to the frame it was given.\<close>

definition show_service_usage :: "frame \<Rightarrow> error + service_usage \<times> frame" where
  "show_service_usage df =
     (let rs = rows df;
          counts = map count_services rs
      in Inr (\<lparr>service_dist = value_counts_sort_index counts,
                income_service =
                  map (\<lambda>(k, g). (k, flag_mean (\<lambda>(r, c). has_bank_account r) g,
                                  flag_mean (\<lambda>(r, c). uses_mobile_money r) g,
                                  flag_mean (\<lambda>(r, c). has_savings r) g,
                                  flag_mean snd g))
                      (groupby_categorical quintile_labels (\<lambda>(r, c). income_quintile r)
                         (zip rs counts))\<rparr>,
               df\<lparr>service_count := Some counts\<rparr>))"

record segment_summary =
  seg_name :: string
  seg_size :: nat
  seg_percentage :: rat
  seg_avg_income :: "rat option"
  seg_urban_share :: "rat option"
  seg_avg_literacy :: "rat option"

record market_segments =
  segments :: "(string \<times> nat) list"
  segment_data :: "segment_summary list"

definition digital_champions :: "row list \<Rightarrow> row list" where
  "digital_champions rs = filter (\<lambda>r. uses_mobile_money r = 1 \<and> has_bank_account r = 1) rs"

definition mobile_only :: "row list \<Rightarrow> row list" where
  "mobile_only rs = filter (\<lambda>r. uses_mobile_money r = 1 \<and> has_bank_account r = 0) rs"

definition bank_only :: "row list \<Rightarrow> row list" where
  "bank_only rs = filter (\<lambda>r. has_bank_account r = 1 \<and> uses_mobile_money r = 0) rs"

definition excluded :: "row list \<Rightarrow> row list" where
  "excluded rs = filter (\<lambda>r. has_bank_account r = 0 \<and> uses_mobile_money r = 0) rs"

definition segment_frames :: "row list \<Rightarrow> (string \<times> row list) list" where
  "segment_frames rs =
     [(''Digital Champions'', digital_champions rs),
      (''Mobile-Only Users'', mobile_only rs),
      (''Traditional Banking'', bank_only rs),
      (''Financially Excluded'', excluded rs)]"

definition show_market_segments :: "frame \<Rightarrow> error + market_segments \<times> frame" where
  "show_market_segments df =
     (let rs = rows df
      in Inr (\<lparr>segments = map (\<lambda>(name, seg). (name, length seg)) (segment_frames rs),
                segment_data =
                  map (\<lambda>(name, seg).
                         \<lparr>seg_name = name, seg_size = length seg,
                          seg_percentage = of_nat (length seg) / of_nat (length rs),
                          seg_avg_income = num_mean monthly_income_rwf seg,
                          seg_urban_share = bool_mean (\<lambda>r. urban_rural r = ''Urban'') seg,
                          seg_avg_literacy = num_mean financial_literacy_score seg\<rparr>)
                      (filter (\<lambda>(name, seg). length seg > 0) (segment_frames rs))\<rparr>,
               df))"

record policy_insights =
  urban_rural_gap :: "rat option"
  rural_excluded :: nat
  mobile_advantage :: "rat option"
  recommendations :: "(string \<times> string \<times> nat) list"

definition show_policy_insights :: "frame \<Rightarrow> error + policy_insights \<times> frame" where
  "show_policy_insights df =
     (let rs = rows df;
          urban_inclusion = bool_mean any_formal_service (filter (\<lambda>r. urban_rural r = ''Urban'') rs);
          rural_inclusion = bool_mean any_formal_service (filter (\<lambda>r. urban_rural r = ''Rural'') rs);
          rural_excl = length (filter (\<lambda>r. urban_rural r = ''Rural'' \<and> any_formal_service r = False) rs)
      in Inr (\<lparr>urban_rural_gap = nan_minus urban_inclusion rural_inclusion,
                rural_excluded = rural_excl,
                mobile_advantage =
                  nan_minus (flag_mean uses_mobile_money rs) (flag_mean has_bank_account rs),
                recommendations =
                  [(''Rural Mobile Money Agent Expansion'', ''HIGH'', rural_excl),
                   (''Financial Literacy Programs'', ''HIGH'',
                    length (filter (\<lambda>r. financial_literacy_score r < 5) rs)),
                   (''Digital-First Service Strategy'', ''MEDIUM'',
                    length (filter (\<lambda>r. uses_mobile_money r = 0) rs))]\<rparr>,
               df))"

section \<open>main\<close>

datatype view_output =
    Executive executive_overview
  | Demographic demographic_analysis
  | Provincial "province_stat list"
  | Usage service_usage
  | Segments market_segments
  | Policy policy_insights
  | No_view

text \<open>
  The local variables of \<open>main\<close> when it returns: the prepared table \<open>df\<close> and the
  filtered frame, which is the object the selected view has worked on.
\<close>

record session =
  df_final :: "row list"
  filtered_df_final :: frame

definition with_output ::
  "('a \<Rightarrow> view_output) \<Rightarrow> error + 'a \<times> frame \<Rightarrow> error + view_output \<times> frame" where
  "with_output tag res = (case res of Inl e \<Rightarrow> Inl e | Inr (out, df') \<Rightarrow> Inr (tag out, df'))"

definition dispatch ::
  "((province_stat \<Rightarrow> rat) \<Rightarrow> province_stat list \<Rightarrow> province_stat list) \<Rightarrow>
   string \<Rightarrow> frame \<Rightarrow> error + view_output \<times> frame" where
  "dispatch srt analysis_type filtered_df =
     (if analysis_type = ''Executive Overview''
        then with_output Executive (show_executive_overview filtered_df)
      else if analysis_type = ''Demographic Analysis''
        then with_output Demographic (show_demographic_analysis filtered_df)
      else if analysis_type = ''Provincial Analysis''
        then with_output Provincial (show_provincial_analysis srt filtered_df)
      else if analysis_type = ''Service Usage''
        then with_output Usage (show_service_usage filtered_df)
      else if analysis_type = ''Market Segments''
        then with_output Segments (show_market_segments filtered_df)
      else if analysis_type = ''Policy Insights''
        then with_output Policy (show_policy_insights filtered_df)
      else Inr (No_view, filtered_df))"

definition main ::
  "((province_stat \<Rightarrow> rat) \<Rightarrow> province_stat list \<Rightarrow> province_stat list) \<Rightarrow>
   demographics_row list \<Rightarrow> financial_services_row list \<Rightarrow>
   string \<Rightarrow> string list \<Rightarrow> string \<Rightarrow> error + view_output \<times> session" where
  "main srt demographics financial_services analysis_type selected_provinces urban_rural_filter =
     (case prepare_analysis_data demographics financial_services of
        Inl e \<Rightarrow> Inl e
      | Inr df \<Rightarrow>
          (case dispatch srt analysis_type
                  (apply_filters df selected_provinces urban_rural_filter) of
             Inl e \<Rightarrow> Inl e
           | Inr (out, filtered_df) \<Rightarrow>
               Inr (out, \<lparr>df_final = df, filtered_df_final = filtered_df\<rparr>)))"

section \<open>Sample data\<close>

text \<open>A table of six respondents, used to run the definitions on concrete input.\<close>

definition sample_demographics :: "demographics_row list" where
  "sample_demographics =
    [\<lparr>d_respondent_id = 1, d_province = ''Kigali'', d_urban_rural = ''Urban'', d_age = 30,
      d_education = ''Tertiary'', d_monthly_income_rwf = 500000\<rparr>,
     \<lparr>d_respondent_id = 2, d_province = ''Northern'', d_urban_rural = ''Rural'', d_age = 45,
      d_education = ''Primary'', d_monthly_income_rwf = 60000\<rparr>,
     \<lparr>d_respondent_id = 3, d_province = ''Southern'', d_urban_rural = ''Rural'', d_age = 62,
      d_education = ''None'', d_monthly_income_rwf = 20000\<rparr>,
     \<lparr>d_respondent_id = 4, d_province = ''Eastern'', d_urban_rural = ''Rural'', d_age = 23,
      d_education = ''Secondary'', d_monthly_income_rwf = 90000\<rparr>,
     \<lparr>d_respondent_id = 5, d_province = ''Western'', d_urban_rural = ''Urban'', d_age = 36,
      d_education = ''Secondary'', d_monthly_income_rwf = 150000\<rparr>,
     \<lparr>d_respondent_id = 6, d_province = ''Kigali'', d_urban_rural = ''Urban'', d_age = 51,
      d_education = ''Tertiary'', d_monthly_income_rwf = 300000\<rparr>]"

definition sample_financial_services :: "financial_services_row list" where
  "sample_financial_services =
    [\<lparr>f_respondent_id = 1, f_has_bank_account = 1, f_uses_mobile_money = 1, f_has_savings = 1,
      f_has_loan = 0, f_uses_insurance = 1, f_financial_literacy_score = 8\<rparr>,
     \<lparr>f_respondent_id = 2, f_has_bank_account = 0, f_uses_mobile_money = 1, f_has_savings = 0,
      f_has_loan = 0, f_uses_insurance = 0, f_financial_literacy_score = 4\<rparr>,
     \<lparr>f_respondent_id = 3, f_has_bank_account = 0, f_uses_mobile_money = 0, f_has_savings = 0,
      f_has_loan = 0, f_uses_insurance = 0, f_financial_literacy_score = 2\<rparr>,
     \<lparr>f_respondent_id = 4, f_has_bank_account = 1, f_uses_mobile_money = 0, f_has_savings = 1,
      f_has_loan = 0, f_uses_insurance = 0, f_financial_literacy_score = 6\<rparr>,
     \<lparr>f_respondent_id = 5, f_has_bank_account = 0, f_uses_mobile_money = 1, f_has_savings = 1,
      f_has_loan = 1, f_uses_insurance = 0, f_financial_literacy_score = 7\<rparr>,
     \<lparr>f_respondent_id = 6, f_has_bank_account = 1, f_uses_mobile_money = 1, f_has_savings = 0,
      f_has_loan = 1, f_uses_insurance = 1, f_financial_literacy_score = 9\<rparr>]"

definition mk_row ::
  "int \<Rightarrow> string \<Rightarrow> string \<Rightarrow> int \<Rightarrow> string \<Rightarrow> rat \<Rightarrow> int list \<Rightarrow> rat \<Rightarrow> string option \<Rightarrow> row" where
  "mk_row i p u a e inc fl lit qu =
     derive_row \<lparr>respondent_id = i, province = p, urban_rural = u, age = a, education = e,
        monthly_income_rwf = inc, has_bank_account = fl ! 0, uses_mobile_money = fl ! 1,
        has_savings = fl ! 2, has_loan = fl ! 3, uses_insurance = fl ! 4,
        financial_literacy_score = lit\<rparr> qu"

definition sample_df :: "row list" where
  "sample_df =
    [mk_row 1 ''Kigali'' ''Urban'' 30 ''Tertiary'' 500000 [1, 1, 1, 0, 1] 8 (Some ''Q5''),
     mk_row 2 ''Northern'' ''Rural'' 45 ''Primary'' 60000 [0, 1, 0, 0, 0] 4 (Some ''Q1''),
     mk_row 3 ''Southern'' ''Rural'' 62 ''None'' 20000 [0, 0, 0, 0, 0] 2 (Some ''Q1''),
     mk_row 4 ''Eastern'' ''Rural'' 23 ''Secondary'' 90000 [1, 0, 1, 0, 0] 6 (Some ''Q2''),
     mk_row 5 ''Western'' ''Urban'' 36 ''Secondary'' 150000 [0, 1, 1, 1, 0] 7 (Some ''Q3''),
     mk_row 6 ''Kigali'' ''Urban'' 51 ''Tertiary'' 300000 [1, 1, 0, 1, 1] 9 (Some ''Q4'')]"

section \<open>Notions used in the statements\<close>

text \<open>
  The data model stores the five service flags as 0 or 1. A frame as \<open>main\<close> passes it to
  a view has none of the columns that views add.
\<close>

definition boolean_flag :: "int \<Rightarrow> bool" where
  "boolean_flag x \<longleftrightarrow> x = 0 \<or> x = 1"

definition boolean_flags :: "row \<Rightarrow> bool" where
  "boolean_flags r \<longleftrightarrow>
     boolean_flag (has_bank_account r) \<and> boolean_flag (uses_mobile_money r) \<and>
     boolean_flag (has_savings r) \<and> boolean_flag (has_loan r) \<and>
     boolean_flag (uses_insurance r)"

definition sample_view :: frame where
  "sample_view = \<lparr>rows = sample_df, age_group = None, service_count = None\<rparr>"

definition segment_count :: "row list \<Rightarrow> row \<Rightarrow> nat" where
  "segment_count rs r = length (filter (\<lambda>(name, seg). r \<in> set seg) (segment_frames rs))"

text \<open>The view of the sample table for the province Southern: one respondent, no service.\<close>

definition southern_view :: frame where
  "southern_view = apply_filters sample_df [''Southern''] ''All''"

text \<open>Frames for the age groups: respondents at the edges of the bins.\<close>

definition ages_view :: frame where
  "ages_view =
     \<lparr>rows = [mk_row 11 ''Kigali'' ''Urban'' 0 ''None'' 0 [0, 0, 0, 0, 0] 0 (Some ''Q1''),
              mk_row 12 ''Kigali'' ''Urban'' 18 ''Secondary'' 40000 [0, 1, 0, 0, 0] 5 (Some ''Q2''),
              mk_row 13 ''Kigali'' ''Urban'' 25 ''Secondary'' 50000 [0, 1, 0, 0, 0] 5 (Some ''Q3''),
              mk_row 14 ''Kigali'' ''Urban'' 26 ''Tertiary'' 90000 [1, 1, 0, 0, 0] 7 (Some ''Q4''),
              mk_row 15 ''Kigali'' ''Urban'' 56 ''Primary'' 70000 [1, 0, 0, 0, 0] 6 (Some ''Q4''),
              mk_row 16 ''Kigali'' ''Urban'' 100 ''Primary'' 95000 [1, 0, 1, 0, 0] 6 (Some ''Q5'')],
      age_group = None, service_count = None\<rparr>"

definition age_zero_view :: frame where
  "age_zero_view =
     \<lparr>rows = [mk_row 11 ''Kigali'' ''Urban'' 0 ''None'' 0 [0, 0, 0, 0, 0] 0 (Some ''Q1'')],
      age_group = None, service_count = None\<rparr>"

text \<open>The cell of \<open>age_group\<close> that \<open>pd.cut\<close> computes for an age.\<close>

definition age_label :: "int \<Rightarrow> string option" where
  "age_label a = bin_label age_bins age_labels False (of_int a)"

text \<open>The views of the sample table when no province is selected.\<close>

definition no_province_view :: frame where
  "no_province_view = apply_filters sample_df [] ''Urban''"

definition no_province_view_all :: frame where
  "no_province_view_all = apply_filters sample_df [] ''All''"

text \<open>
  Input tables with a given income column: respondent \<open>i\<close> has the \<open>i\<close>-th income and one row
  in each file. \<open>quintiles_of_incomes\<close> is the column \<open>income_quintile\<close> of the table
  prepared from them.
\<close>

definition demographics_of_incomes :: "rat list \<Rightarrow> demographics_row list" where
  "demographics_of_incomes incomes =
     map (\<lambda>(i, income).
            \<lparr>d_respondent_id = int i, d_province = ''Kigali'', d_urban_rural = ''Urban'',
             d_age = 30, d_education = ''Secondary'', d_monthly_income_rwf = income\<rparr>)
         (enumerate 1 incomes)"

definition services_of_incomes :: "rat list \<Rightarrow> financial_services_row list" where
  "services_of_incomes incomes =
     map (\<lambda>i. \<lparr>f_respondent_id = int i, f_has_bank_account = 0, f_uses_mobile_money = 1,
                f_has_savings = 0, f_has_loan = 0, f_uses_insurance = 0,
                f_financial_literacy_score = 5\<rparr>)
         [1..<length incomes + 1]"

definition quintiles_of_incomes :: "rat list \<Rightarrow> error + string option list" where
  "quintiles_of_incomes incomes =
     map_sum id (map income_quintile)
       (prepare_analysis_data (demographics_of_incomes incomes)
          (services_of_incomes incomes))"

text \<open>
  Notions for the income quintiles: the six bin edges of \<open>pd.qcut\<close> with \<open>q = 5\<close>, the
  insertion point of an income among them, the rank 1 to 5 of a row's label (0 for NaN),
  the number of rows with a label, and an income column with a three-fold tie.
\<close>

definition quintile_edges :: "rat list \<Rightarrow> rat list" where
  "quintile_edges x = map (\<lambda>k. quantile x k 5) [0..<5 + 1]"

definition quintile_index :: "rat list \<Rightarrow> rat \<Rightarrow> nat" where
  "quintile_index x v = bin_index (quintile_edges x) True v"

definition label_rank :: "string option \<Rightarrow> nat" where
  "label_rank l =
     (if l = Some ''Q1'' then 1 else if l = Some ''Q2'' then 2 else if l = Some ''Q3'' then 3
      else if l = Some ''Q4'' then 4 else if l = Some ''Q5'' then 5 else 0)"

definition quintile_rank :: "row \<Rightarrow> nat" where
  "quintile_rank r = label_rank (income_quintile r)"

definition quintile_size :: "row list \<Rightarrow> string \<Rightarrow> nat" where
  "quintile_size df l = length (filter (\<lambda>r. income_quintile r = Some l) df)"

definition tied_incomes :: "rat list" where
  "tied_incomes = [10000, 20000, 30000, 40000, 40000, 40000, 70000, 80000, 90000, 100000]"

text \<open>
  The heap order of \<open>aheapsort\<close> on the first \<open>n\<close> rows, with positions counted from 0: the
  row at position \<open>k\<close> has a key not below the keys of its children at \<open>2k + 1\<close> and
  \<open>2k + 2\<close>.
\<close>

definition heap_at :: "('a \<Rightarrow> rat) \<Rightarrow> nat \<Rightarrow> 'a list \<Rightarrow> nat \<Rightarrow> bool" where
  "heap_at f n xs k \<longleftrightarrow>
     (2 * k + 1 < n \<longrightarrow> f (xs ! (2 * k + 1)) \<le> f (xs ! k)) \<and>
     (2 * k + 2 < n \<longrightarrow> f (xs ! (2 * k + 2)) \<le> f (xs ! k))"

text \<open>
  Input files with eighteen provinces, one respondent in each, every one with a bank
  account, and the view of the prepared table with all provinces selected.
\<close>

definition eighteen_provinces :: "string list" where
  "eighteen_provinces =
     [''P01'', ''P02'', ''P03'', ''P04'', ''P05'', ''P06'', ''P07'', ''P08'', ''P09'',
      ''P10'', ''P11'', ''P12'', ''P13'', ''P14'', ''P15'', ''P16'', ''P17'', ''P18'']"

definition eighteen_demographics :: "demographics_row list" where
  "eighteen_demographics =
     map (\<lambda>(i, p).
            \<lparr>d_respondent_id = int i, d_province = p, d_urban_rural = ''Urban'',
             d_age = 30, d_education = ''Secondary'',
             d_monthly_income_rwf = of_nat i * 10000\<rparr>)
         (enumerate 1 eighteen_provinces)"

definition eighteen_services :: "financial_services_row list" where
  "eighteen_services =
     map (\<lambda>i. \<lparr>f_respondent_id = int i, f_has_bank_account = 1, f_uses_mobile_money = 0,
                f_has_savings = 0, f_has_loan = 0, f_uses_insurance = 0,
                f_financial_literacy_score = 5\<rparr>)
         [1..<19]"

text \<open>What the provincial view shows: the provinces with their inclusion rates, in table order.\<close>

definition provincial_table :: "view_output \<Rightarrow> (string \<times> rat option) list" where
  "provincial_table out =
     (case out of
        Provincial t \<Rightarrow> map (\<lambda>s. (ps_province s, ps_any_formal_service s)) t
      | _ \<Rightarrow> [])"

section \<open>Properties of the preparation\<close>

lemmas eval_defs =
  qcut_def bins_to_cuts_def bin_label_def bin_index_def searchsorted_left_def
  quantile_def quintile_labels_def Let_def


lemma upt_6: "[0..<6] = [0, 1, 2, 3, 4, 5]"
  by code_simp

lemma sample_quintiles:
  "qcut [500000, 60000, 20000, 90000, 150000, 300000] 5 quintile_labels
    = Inr [Some ''Q5'', Some ''Q1'', Some ''Q1'', Some ''Q2'', Some ''Q3'', Some ''Q4'']"
  by (simp add: eval_defs upt_6)

lemma merge_sample_incomes:
  "map monthly_income_rwf (merge_inner sample_demographics sample_financial_services)
     = [500000, 60000, 20000, 90000, 150000, 300000]"
  by (simp add: merge_inner_def join_rows_def sample_demographics_def sample_financial_services_def)



lemma derive_row_sel [simp]:
  "respondent_id (derive_row m c) = respondent_id m"
  "province (derive_row m c) = province m"
  "urban_rural (derive_row m c) = urban_rural m"
  "age (derive_row m c) = age m"
  "education (derive_row m c) = education m"
  "monthly_income_rwf (derive_row m c) = monthly_income_rwf m"
  "has_bank_account (derive_row m c) = has_bank_account m"
  "uses_mobile_money (derive_row m c) = uses_mobile_money m"
  "has_savings (derive_row m c) = has_savings m"
  "has_loan (derive_row m c) = has_loan m"
  "uses_insurance (derive_row m c) = uses_insurance m"
  "financial_literacy_score (derive_row m c) = financial_literacy_score m"
  "income_quintile (derive_row m c) = c"
  "any_formal_service (derive_row m c) =
     (has_bank_account m = 1 \<or> uses_mobile_money m = 1 \<or> has_savings m = 1)"
  by (simp_all add: derive_row_def merged_row.defs row.defs)

lemma bins_to_cuts_length:
  "bins_to_cuts x bins labels il = Inr cs \<Longrightarrow> length cs = length x"
  by (auto simp: bins_to_cuts_def split: if_splits)

lemma qcut_length: "qcut x q labels = Inr cs \<Longrightarrow> length cs = length x"
  by (auto simp: qcut_def split: if_splits dest: bins_to_cuts_length)

text \<open>
  Claim C1. For every row of the prepared (merged) table, \<open>any_formal_service\<close> is true if
  and only if at least one of \<open>has_bank_account\<close>, \<open>uses_mobile_money\<close>, \<open>has_savings\<close>
  is set (equal to 1) in that row.
\<close>

theorem any_formal_service_iff:
  assumes "prepare_analysis_data demographics financial_services = Inr df"
  shows "\<forall>r \<in> set df. any_formal_service r \<longleftrightarrow>
           (has_bank_account r = 1 \<or> uses_mobile_money r = 1 \<or> has_savings r = 1)"
proof
  fix r assume r: "r \<in> set df"
  from assms obtain cs where
    df: "df = map (\<lambda>(m, c). derive_row m c)
                (zip (merge_inner demographics financial_services) cs)"
    by (auto simp: prepare_analysis_data_def Let_def split: sum.splits)
  from r df obtain m c where "r = derive_row m c" by auto
  then show "any_formal_service r \<longleftrightarrow>
      (has_bank_account r = 1 \<or> uses_mobile_money r = 1 \<or> has_savings r = 1)"
    by simp
qed

subsection \<open>The sample table\<close>

lemma prepare_sample:
  "prepare_analysis_data sample_demographics sample_financial_services = Inr sample_df"
  unfolding prepare_analysis_data_def Let_def merge_sample_incomes sample_quintiles
  by (simp add: merge_inner_def join_rows_def
      sample_demographics_def sample_financial_services_def sample_df_def mk_row_def)

lemma mk_row_sel [simp]:
  "respondent_id (mk_row i p u a e inc fl lit qu) = i"
  "province (mk_row i p u a e inc fl lit qu) = p"
  "urban_rural (mk_row i p u a e inc fl lit qu) = u"
  "age (mk_row i p u a e inc fl lit qu) = a"
  "education (mk_row i p u a e inc fl lit qu) = e"
  "monthly_income_rwf (mk_row i p u a e inc fl lit qu) = inc"
  "has_bank_account (mk_row i p u a e inc fl lit qu) = fl ! 0"
  "uses_mobile_money (mk_row i p u a e inc fl lit qu) = fl ! 1"
  "has_savings (mk_row i p u a e inc fl lit qu) = fl ! 2"
  "has_loan (mk_row i p u a e inc fl lit qu) = fl ! 3"
  "uses_insurance (mk_row i p u a e inc fl lit qu) = fl ! 4"
  "financial_literacy_score (mk_row i p u a e inc fl lit qu) = lit"
  "income_quintile (mk_row i p u a e inc fl lit qu) = qu"
  "any_formal_service (mk_row i p u a e inc fl lit qu) = (fl ! 0 = 1 \<or> fl ! 1 = 1 \<or> fl ! 2 = 1)"
  by (simp_all add: mk_row_def)

theorem any_formal_service_iff_witness:
  "prepare_analysis_data sample_demographics sample_financial_services = Inr sample_df \<and>
   map any_formal_service sample_df = [True, True, False, True, True, True] \<and>
   map (\<lambda>r. has_bank_account r = 1 \<or> uses_mobile_money r = 1 \<or> has_savings r = 1) sample_df
     = [True, True, False, True, True, True]"
  using any_formal_service_iff [OF prepare_sample] prepare_sample
  by (simp add: sample_df_def)

section \<open>Properties of the filter\<close>

text \<open>
  Claim C6. The filter keeps exactly the rows whose province is among the selected provinces
  and, unless the urban/rural selection is \<open>All\<close>, whose \<open>urban_rural\<close> cell equals the
  selection (equality of strings, so case-sensitive); with \<open>All\<close> only the province filter
  applies, and an empty selection of provinces gives an empty result whatever the
  urban/rural selection is.
\<close>

theorem apply_filters_rows:
  "rows (apply_filters df selected_provinces urban_rural_filter) =
     filter (\<lambda>r. province r \<in> set selected_provinces \<and>
                 (urban_rural_filter = ''All'' \<or> urban_rural r = urban_rural_filter)) df
   \<and> rows (apply_filters df selected_provinces ''All'') =
       filter (\<lambda>r. province r \<in> set selected_provinces) df
   \<and> rows (apply_filters df [] urban_rural_filter) = []"
  by (simp add: apply_filters_def Let_def)

theorem apply_filters_rows_witness:
  "map respondent_id (rows (apply_filters sample_df [''Kigali'', ''Western'', ''Northern''] ''Urban''))
     = [1, 5, 6]
   \<and> map respondent_id (rows (apply_filters sample_df [''Kigali'', ''Western'', ''Northern''] ''urban''))
     = []
   \<and> map respondent_id (rows (apply_filters sample_df [''Kigali'', ''Western'', ''Northern''] ''All''))
     = [1, 2, 5, 6]
   \<and> rows (apply_filters sample_df [] ''Rural'') = []"
  using apply_filters_rows [of sample_df "[''Kigali'', ''Western'', ''Northern'']" "''Urban''"]
    apply_filters_rows [of sample_df "[''Kigali'', ''Western'', ''Northern'']" "''urban''"]
    apply_filters_rows [of sample_df "[''Kigali'', ''Western'', ''Northern'']" "''All''"]
    apply_filters_rows [of sample_df "[]" "''Rural''"]
  by (simp add: sample_df_def)

section \<open>Properties of the market segmentation\<close>

lemma four_way_split:
  assumes "\<forall>r \<in> set rs. boolean_flag (has_bank_account r) \<and> boolean_flag (uses_mobile_money r)"
  shows "length (digital_champions rs) + length (mobile_only rs) + length (bank_only rs)
           + length (excluded rs) = length rs"
  using assms
  by (induction rs)
     (auto simp: digital_champions_def mobile_only_def bank_only_def excluded_def
        boolean_flag_def)

lemma one_segment:
  assumes "r \<in> set rs" "boolean_flag (has_bank_account r)" "boolean_flag (uses_mobile_money r)"
  shows "segment_count rs r = 1"
  using assms
  by (auto simp: segment_count_def segment_frames_def digital_champions_def mobile_only_def
      bank_only_def excluded_def boolean_flag_def)

text \<open>
  Claim C5. On every filtered view whose \<open>has_bank_account\<close> and \<open>uses_mobile_money\<close>
  cells are 0 or 1, the four market segments Digital Champions (1,1), Mobile-Only (0,1),
  Traditional Banking (1,0) and Financially Excluded (0,0) are pairwise disjoint and
  jointly exhaustive: every row lies in exactly one of the four segment frames, and the
  four sizes the view reports add up to the number of rows of the view.
\<close>

theorem market_segments_partition:
  assumes "\<forall>r \<in> set (rows df).
             boolean_flag (has_bank_account r) \<and> boolean_flag (uses_mobile_money r)"
  shows "case show_market_segments df of
           Inl e \<Rightarrow> False
         | Inr (out, df') \<Rightarrow>
             segments out =
               [(''Digital Champions'',
                 length (filter (\<lambda>r. has_bank_account r = 1 \<and> uses_mobile_money r = 1) (rows df))),
                (''Mobile-Only Users'',
                 length (filter (\<lambda>r. has_bank_account r = 0 \<and> uses_mobile_money r = 1) (rows df))),
                (''Traditional Banking'',
                 length (filter (\<lambda>r. has_bank_account r = 1 \<and> uses_mobile_money r = 0) (rows df))),
                (''Financially Excluded'',
                 length (filter (\<lambda>r. has_bank_account r = 0 \<and> uses_mobile_money r = 0) (rows df)))]
             \<and> sum_list (map snd (segments out)) = length (rows df)
             \<and> (\<forall>r \<in> set (rows df). segment_count (rows df) r = 1)"
proof -
  have conj_comm: "\<And>P Q (xs :: row list). filter (\<lambda>r. P r \<and> Q r) xs = filter (\<lambda>r. Q r \<and> P r) xs"
    by (rule filter_cong) auto
  have sizes: "length (digital_champions (rows df)) + length (mobile_only (rows df))
      + length (bank_only (rows df)) + length (excluded (rows df)) = length (rows df)"
    using assms by (rule four_way_split)
  have one: "\<forall>r \<in> set (rows df). segment_count (rows df) r = 1"
    using assms by (simp add: one_segment)
  have segs: "segments (fst (projr (show_market_segments df))) =
      [(''Digital Champions'', length (digital_champions (rows df))),
       (''Mobile-Only Users'', length (mobile_only (rows df))),
       (''Traditional Banking'', length (bank_only (rows df))),
       (''Financially Excluded'', length (excluded (rows df)))]"
    by (simp add: show_market_segments_def segment_frames_def Let_def)
  show ?thesis
    using sizes one segs
    by (simp add: show_market_segments_def Let_def segment_frames_def
        digital_champions_def mobile_only_def bank_only_def excluded_def
        conj_comm [of "\<lambda>r. uses_mobile_money r = 1"])
qed

theorem market_segments_partition_witness:
  "list_all (\<lambda>r. boolean_flag (has_bank_account r) \<and> boolean_flag (uses_mobile_money r))
     (rows sample_view)
   \<and> map_sum id (\<lambda>(out, df'). segments out) (show_market_segments sample_view) =
       Inr [(''Digital Champions'', 2), (''Mobile-Only Users'', 2),
            (''Traditional Banking'', 1), (''Financially Excluded'', 1)]
   \<and> length (rows sample_view) = 6
   \<and> map (segment_count (rows sample_view)) (rows sample_view) = [1, 1, 1, 1, 1, 1]"
proof -
  have h: "\<forall>r \<in> set (rows sample_view).
      boolean_flag (has_bank_account r) \<and> boolean_flag (uses_mobile_money r)"
    by (simp add: sample_view_def sample_df_def boolean_flag_def)
  show ?thesis
    using market_segments_partition [OF h] h
    by (auto simp: sample_view_def sample_df_def list_all_iff split: sum.splits)
qed

section \<open>Properties of the service usage view\<close>

lemma count_services_range:
  assumes "boolean_flags r"
  shows "0 \<le> count_services r \<and> count_services r \<le> 5"
  using assms by (auto simp: boolean_flags_def boolean_flag_def count_services_def)

lemma value_counts_keys:
  "set (map fst (value_counts_sort_index xs)) = set xs"
  "sorted (map fst (value_counts_sort_index xs))"
  "distinct (map fst (value_counts_sort_index xs))"
  by (simp_all add: value_counts_sort_index_def comp_def)

lemma value_counts_entries:
  assumes "(v, n) \<in> set (value_counts_sort_index xs)"
  shows "n = length (filter (\<lambda>x. x = v) xs) \<and> 0 < n"
proof -
  from assms have v: "v \<in> set xs" and n: "n = length (filter (\<lambda>x. x = v) xs)"
    by (auto simp: value_counts_sort_index_def)
  from v have "filter (\<lambda>x. x = v) xs \<noteq> []"
    by (simp add: filter_empty_conv)
  with n show ?thesis by simp
qed

text \<open>
  Claim C8, as amended. The distribution of \<open>service_count\<close> that the service usage view
  computes lists exactly the values of \<open>service_count\<close> that occur in the filtered view,
  in ascending order and each once, every one with the number of rows that have it, which
  is positive; a value that no row has is not in the output. With 0/1-coded flags the
  listed values lie among 0, 1, 2, 3, 4, 5.
\<close>

theorem service_dist_observed_values:
  "case show_service_usage df of
     Inl e \<Rightarrow> False
   | Inr (out, df') \<Rightarrow>
       set (map fst (service_dist out)) = count_services ` set (rows df)
       \<and> sorted (map fst (service_dist out)) \<and> distinct (map fst (service_dist out))
       \<and> (\<forall>(v, n) \<in> set (service_dist out).
             n = length (filter (\<lambda>r. count_services r = v) (rows df)) \<and> 0 < n)
       \<and> ((\<forall>r \<in> set (rows df). boolean_flags r) \<longrightarrow>
             set (map fst (service_dist out)) \<subseteq> {0, 1, 2, 3, 4, 5})"
proof -
  let ?cs = "map count_services (rows df)"
  have len: "\<And>v. length (filter (\<lambda>x. x = v) ?cs)
                 = length (filter (\<lambda>r. count_services r = v) (rows df))"
    by (simp add: filter_map comp_def)
  have entries: "\<forall>(v, n) \<in> set (value_counts_sort_index ?cs).
      n = length (filter (\<lambda>r. count_services r = v) (rows df)) \<and> 0 < n"
    using value_counts_entries [of _ _ ?cs] len by auto
  have range: "(\<forall>r \<in> set (rows df). boolean_flags r) \<longrightarrow>
      count_services ` set (rows df) \<subseteq> {0, 1, 2, 3, 4, 5}"
  proof (intro impI subsetI)
    fix c assume a: "\<forall>r \<in> set (rows df). boolean_flags r" and "c \<in> count_services ` set (rows df)"
    then obtain r where "r \<in> set (rows df)" "c = count_services r" by auto
    with a count_services_range [of r] have "0 \<le> c \<and> c \<le> 5" by simp
    then show "c \<in> {0, 1, 2, 3, 4, 5}" by auto
  qed
  show ?thesis
    using entries range value_counts_keys [of ?cs]
    by (simp add: show_service_usage_def Let_def)
qed

theorem service_dist_observed_values_witness:
  "map_sum id (\<lambda>(out, df'). service_dist out) (show_service_usage sample_view)
     = Inr [(0, 1), (1, 1), (2, 1), (3, 1), (4, 2)]
   \<and> map count_services (rows sample_view) = [4, 1, 0, 2, 3, 4]
   \<and> list_all boolean_flags (rows sample_view)"
  using service_dist_observed_values [of sample_view]
  by (simp add: show_service_usage_def value_counts_sort_index_def count_services_def
      sample_view_def sample_df_def boolean_flags_def boolean_flag_def Let_def)

text \<open>
  The claim as stated fails: on the view of the province Southern the only bucket is 0,
  the buckets 1 to 5 are missing.
\<close>

theorem service_dist_counterexample:
  "map count_services (rows southern_view) = [0]
   \<and> map_sum id (\<lambda>(out, df'). service_dist out) (show_service_usage southern_view)
       = Inr [(0, 1)]"
  by (simp add: show_service_usage_def value_counts_sort_index_def count_services_def
      southern_view_def apply_filters_def sample_df_def Let_def)

section \<open>Properties of the age groups\<close>

lemma age_label_cases:
  "a \<le> 0 \<Longrightarrow> age_label a = None"
  "0 < a \<Longrightarrow> a \<le> 25 \<Longrightarrow> age_label a = Some ''18-25''"
  "25 < a \<Longrightarrow> a \<le> 35 \<Longrightarrow> age_label a = Some ''26-35''"
  "35 < a \<Longrightarrow> a \<le> 45 \<Longrightarrow> age_label a = Some ''36-45''"
  "45 < a \<Longrightarrow> a \<le> 55 \<Longrightarrow> age_label a = Some ''46-55''"
  "55 < a \<Longrightarrow> a \<le> 100 \<Longrightarrow> age_label a = Some ''56+''"
  "100 < a \<Longrightarrow> age_label a = None"
  by (simp_all add: age_label_def bin_label_def bin_index_def searchsorted_left_def
      age_bins_def age_labels_def)

lemma cut_ages:
  "cut (map (\<lambda>r. of_int (age r)) rs) age_bins age_labels = Inr (map (\<lambda>r. age_label (age r)) rs)"
  by (simp add: cut_def bins_to_cuts_def age_label_def age_bins_def comp_def)

lemma age_group_after_view:
  "map_sum id (\<lambda>(out, df'). age_group df') (show_demographic_analysis df)
     = Inr (Some (map (\<lambda>r. age_label (age r)) (rows df)))"
  by (simp add: show_demographic_analysis_def Let_def cut_ages)

text \<open>
  Claim C9, as amended. The demographic view adds the column \<open>age_group\<close>, and for every
  row with an age from 1 to 100 its cell is the label of the right-closed bin that holds
  the age: \<open>(0,25]\<close> is "18-25", \<open>(25,35]\<close> is "26-35", \<open>(35,45]\<close> is "36-45", \<open>(45,55]\<close>
  is "46-55" and \<open>(55,100]\<close> is "56+". The first bin is open at 0: a row with age 0 or
  less gets no age group.
\<close>

theorem age_group_buckets:
  "case show_demographic_analysis df of
     Inl e \<Rightarrow> False
   | Inr (out, df') \<Rightarrow>
       (case age_group df' of
          None \<Rightarrow> False
        | Some groups \<Rightarrow>
            list_all2
              (\<lambda>r g. (age r \<le> 0 \<longrightarrow> g = None) \<and>
                     (0 < age r \<and> age r \<le> 25 \<longrightarrow> g = Some ''18-25'') \<and>
                     (25 < age r \<and> age r \<le> 35 \<longrightarrow> g = Some ''26-35'') \<and>
                     (35 < age r \<and> age r \<le> 45 \<longrightarrow> g = Some ''36-45'') \<and>
                     (45 < age r \<and> age r \<le> 55 \<longrightarrow> g = Some ''46-55'') \<and>
                     (55 < age r \<and> age r \<le> 100 \<longrightarrow> g = Some ''56+''))
              (rows df) groups)"
proof -
  have "list_all2
      (\<lambda>r g. (age r \<le> 0 \<longrightarrow> g = None) \<and>
             (0 < age r \<and> age r \<le> 25 \<longrightarrow> g = Some ''18-25'') \<and>
             (25 < age r \<and> age r \<le> 35 \<longrightarrow> g = Some ''26-35'') \<and>
             (35 < age r \<and> age r \<le> 45 \<longrightarrow> g = Some ''36-45'') \<and>
             (45 < age r \<and> age r \<le> 55 \<longrightarrow> g = Some ''46-55'') \<and>
             (55 < age r \<and> age r \<le> 100 \<longrightarrow> g = Some ''56+''))
      (rows df) (map (\<lambda>r. age_label (age r)) (rows df))"
    by (simp add: list_all2_map2 list_all2_same age_label_cases)
  then show ?thesis
    by (simp add: show_demographic_analysis_def Let_def cut_ages)
qed

theorem age_group_buckets_witness:
  "map age (rows ages_view) = [0, 18, 25, 26, 56, 100]
   \<and> map_sum id (\<lambda>(out, df'). age_group df') (show_demographic_analysis ages_view)
       = Inr (Some [None, Some ''18-25'', Some ''18-25'', Some ''26-35'', Some ''56+'',
                    Some ''56+''])"
  using age_group_buckets [of ages_view]
  by (simp add: age_group_after_view ages_view_def age_label_cases)

text \<open>
  The claim as stated fails at the closed lower edge of \<open>[0,25]\<close>: age 0 is in no bin.
\<close>

theorem age_group_counterexample:
  "map age (rows age_zero_view) = [0]
   \<and> map_sum id (\<lambda>(out, df'). age_group df') (show_demographic_analysis age_zero_view)
       = Inr (Some [None])"
  by (simp add: age_group_after_view age_zero_view_def age_label_cases)

text \<open>The last bin ends at 100 although its label is "56+": an age above 100 is in no bin.\<close>

lemma age_above_100_unlabelled:
  "100 < age r \<Longrightarrow>
   map_sum id (\<lambda>(out, df'). age_group df')
     (show_demographic_analysis \<lparr>rows = [r], age_group = None, service_count = None\<rparr>)
     = Inr (Some [None])"
  by (simp add: age_group_after_view age_label_cases)

section \<open>What the views do to the frame\<close>

lemma sort_key_contract: "sort_contract sort_key"
  by (simp add: sort_contract_def)

lemma sort_contract_Nil: "sort_contract srt \<Longrightarrow> srt f [] = []"
  by (metis sort_contract_def mset_zero_iff)

lemma executive_rows:
  "show_executive_overview df = Inr (out, df') \<Longrightarrow> df' = df"
  by (auto simp: show_executive_overview_def Let_def split: if_splits)

lemma demographic_frame:
  "show_demographic_analysis df = Inr (out, df') \<Longrightarrow>
     df' = df\<lparr>age_group := Some (map (\<lambda>r. age_label (age r)) (rows df))\<rparr>"
  by (auto simp: show_demographic_analysis_def Let_def cut_ages)

lemma provincial_frame: "show_provincial_analysis srt df = Inr (out, df') \<Longrightarrow> df' = df"
  by (auto simp: show_provincial_analysis_def)

lemma usage_frame:
  "show_service_usage df = Inr (out, df') \<Longrightarrow>
     df' = df\<lparr>service_count := Some (map count_services (rows df))\<rparr>"
  by (auto simp: show_service_usage_def Let_def)

lemma segments_frame: "show_market_segments df = Inr (out, df') \<Longrightarrow> df' = df"
  by (auto simp: show_market_segments_def Let_def)

lemma policy_frame: "show_policy_insights df = Inr (out, df') \<Longrightarrow> df' = df"
  by (auto simp: show_policy_insights_def Let_def)

lemma dispatch_rows:
  assumes "dispatch srt analysis_type df = Inr (out, df')"
  shows "rows df' = rows df"
  using assms
  by (auto simp: dispatch_def with_output_def split: if_splits sum.splits
      dest!: executive_rows demographic_frame provincial_frame usage_frame segments_frame
        policy_frame)

text \<open>
  Claim C4, as amended. \<open>main\<close> never changes the prepared table: it filters it into a new
  frame. The executive, provincial, market segmentation and policy views return the frame
  they were given unchanged. The demographic view and the service usage view assign to
  the frame they were given: the first adds the column \<open>age_group\<close>, the second the column
  \<open>service_count\<close>; the rows and the other columns stay as they were, so whatever view
  runs, the rows of the filtered frame are those the filter produced.
\<close>

theorem views_frame_effect:
  "(case show_executive_overview df of Inl e \<Rightarrow> True | Inr (out, df') \<Rightarrow> df' = df)
   \<and> (case show_provincial_analysis srt df of Inl e \<Rightarrow> True | Inr (out, df') \<Rightarrow> df' = df)
   \<and> (case show_market_segments df of Inl e \<Rightarrow> True | Inr (out, df') \<Rightarrow> df' = df)
   \<and> (case show_policy_insights df of Inl e \<Rightarrow> True | Inr (out, df') \<Rightarrow> df' = df)
   \<and> (case show_demographic_analysis df of
         Inl e \<Rightarrow> True
       | Inr (out, df') \<Rightarrow>
           df' = df\<lparr>age_group := Some (map (\<lambda>r. age_label (age r)) (rows df))\<rparr>)
   \<and> (case show_service_usage df of
         Inl e \<Rightarrow> True
       | Inr (out, df') \<Rightarrow>
           df' = df\<lparr>service_count := Some (map count_services (rows df))\<rparr>)
   \<and> (case main srt demographics financial_services analysis_type
              selected_provinces urban_rural_filter of
         Inl e \<Rightarrow> True
       | Inr (out, s) \<Rightarrow>
           prepare_analysis_data demographics financial_services = Inr (df_final s)
           \<and> rows (filtered_df_final s)
               = rows (apply_filters (df_final s) selected_provinces urban_rural_filter))"
proof -
  have m: "case main srt demographics financial_services analysis_type
              selected_provinces urban_rural_filter of
         Inl e \<Rightarrow> True
       | Inr (out, s) \<Rightarrow>
           prepare_analysis_data demographics financial_services = Inr (df_final s)
           \<and> rows (filtered_df_final s)
               = rows (apply_filters (df_final s) selected_provinces urban_rural_filter)"
    by (auto simp: main_def split: sum.splits dest: dispatch_rows)
  show ?thesis
    using m
    by (auto split: sum.splits
        dest: executive_rows demographic_frame provincial_frame usage_frame segments_frame
          policy_frame)
qed

theorem views_frame_effect_witness:
  "map_sum id (\<lambda>(out, df'). df' = sample_view) (show_market_segments sample_view) = Inr True
   \<and> map_sum id (\<lambda>(out, df'). df' = sample_view) (show_policy_insights sample_view) = Inr True
   \<and> map_sum id (\<lambda>(out, df'). df' = sample_view) (show_executive_overview sample_view) = Inr True
   \<and> map_sum id (\<lambda>(out, df'). df' = sample_view) (show_provincial_analysis sort_key sample_view)
       = Inr True
   \<and> map_sum id snd (show_service_usage sample_view)
       = Inr \<lparr>rows = sample_df, age_group = None, service_count = Some [4, 1, 0, 2, 3, 4]\<rparr>
   \<and> map_sum id (\<lambda>(out, s). df_final s = sample_df)
        (main sort_key sample_demographics sample_financial_services ''Service Usage''
           [''Kigali''] ''All'') = Inr True"
proof -
  have a: "map_sum id (\<lambda>(out, df'). df' = sample_view) (show_market_segments sample_view)
      = Inr True"
    by (simp add: show_market_segments_def Let_def)
  have b: "map_sum id (\<lambda>(out, df'). df' = sample_view) (show_policy_insights sample_view)
      = Inr True"
    by (simp add: show_policy_insights_def Let_def)
  have c: "map_sum id (\<lambda>(out, df'). df' = sample_view) (show_executive_overview sample_view)
      = Inr True"
    by (simp add: show_executive_overview_def Let_def sample_view_def sample_df_def)
  have d: "map_sum id (\<lambda>(out, df'). df' = sample_view)
      (show_provincial_analysis sort_key sample_view) = Inr True"
    by (simp add: show_provincial_analysis_def)
  have e: "map_sum id snd (show_service_usage sample_view)
      = Inr \<lparr>rows = sample_df, age_group = None, service_count = Some [4, 1, 0, 2, 3, 4]\<rparr>"
    by (simp add: show_service_usage_def Let_def sample_view_def count_services_def
        sample_df_def)
  have f: "map_sum id (\<lambda>(out, s). df_final s = sample_df)
      (main sort_key sample_demographics sample_financial_services ''Service Usage''
         [''Kigali''] ''All'') = Inr True"
    by (simp add: main_def prepare_sample dispatch_def with_output_def show_service_usage_def
        Let_def)
  show ?thesis
    using views_frame_effect [where df = sample_view and srt = sort_key
      and demographics = sample_demographics and financial_services = sample_financial_services
      and analysis_type = "''Service Usage''" and selected_provinces = "[''Kigali'']"
      and urban_rural_filter = "''All''"] a b c d e f
    by simp
qed

text \<open>
  The claim as stated fails: the demographic view leaves the frame it was given with a
  column \<open>age_group\<close> that the frame did not have.
\<close>

theorem views_frame_effect_counterexample:
  "age_group sample_view = None
   \<and> map_sum id (\<lambda>(out, df'). age_group df') (show_demographic_analysis sample_view)
       = Inr (Some [Some ''26-35'', Some ''36-45'', Some ''56+'', Some ''18-25'',
                    Some ''36-45'', Some ''46-55''])
   \<and> map_sum id (\<lambda>(out, df'). df' = sample_view) (show_demographic_analysis sample_view)
       = Inr False"
proof -
  have "show_demographic_analysis sample_view \<noteq> Inl e" for e
    by (simp add: show_demographic_analysis_def Let_def cut_ages)
  then obtain out df' where r: "show_demographic_analysis sample_view = Inr (out, df')"
    by (metis sum.exhaust surj_pair)
  from demographic_frame [OF r] have
    "df' = sample_view\<lparr>age_group := Some (map (\<lambda>r. age_label (age r)) (rows sample_view))\<rparr>" .
  then have "age_group df' = Some [Some ''26-35'', Some ''36-45'', Some ''56+'', Some ''18-25'',
                    Some ''36-45'', Some ''46-55'']"
    by (simp add: sample_view_def sample_df_def age_label_cases)
  moreover have "age_group sample_view = None" by (simp add: sample_view_def)
  ultimately show ?thesis using r by auto
qed


section \<open>The views on a frame without rows\<close>

lemma empty_means [simp]:
  "flag_mean f [] = None" "bool_mean g [] = None" "num_mean h [] = None"
  by (simp_all add: flag_mean_def bool_mean_def num_mean_def mean_def)

lemma groupby_Nil [simp]: "groupby col [] = []"
  by (simp add: groupby_def)

text \<open>
  The executive overview divides by the number of rows without a guard: on a frame
  without rows it stops with \<open>ZeroDivisionError\<close>, after its first three metrics.
\<close>

lemma executive_overview_empty:
  "rows df = [] \<Longrightarrow> show_executive_overview df = Inl ZeroDivisionError"
  by (simp add: show_executive_overview_def)

text \<open>
  Claim C2, as amended. Filtering with an empty selection of provinces gives a frame
  without rows, whatever the urban/rural selection. On a frame without rows the
  demographic, provincial, service usage, market segmentation and policy views raise no
  error: they return empty tables, zero counts and NaN means (the provincial view for
  every sorting routine that returns a rearrangement of its input).
\<close>

theorem views_on_empty_view:
  assumes "sort_contract srt" and "rows df = []"
  shows "rows (apply_filters t [] urban_rural_filter) = []
   \<and> show_demographic_analysis df =
       Inr (\<lparr>edu_analysis = [],
             age_analysis = [(''18-25'', None, None), (''26-35'', None, None),
                             (''36-45'', None, None), (''46-55'', None, None),
                             (''56+'', None, None)]\<rparr>,
            df\<lparr>age_group := Some []\<rparr>)
   \<and> show_provincial_analysis srt df = Inr ([], df)
   \<and> show_service_usage df =
       Inr (\<lparr>service_dist = [],
             income_service = [(''Q1'', None, None, None, None), (''Q2'', None, None, None, None),
                               (''Q3'', None, None, None, None), (''Q4'', None, None, None, None),
                               (''Q5'', None, None, None, None)]\<rparr>,
            df\<lparr>service_count := Some []\<rparr>)
   \<and> show_market_segments df =
       Inr (\<lparr>segments = [(''Digital Champions'', 0), (''Mobile-Only Users'', 0),
                          (''Traditional Banking'', 0), (''Financially Excluded'', 0)],
             segment_data = []\<rparr>, df)
   \<and> show_policy_insights df =
       Inr (\<lparr>urban_rural_gap = None, rural_excluded = 0, mobile_advantage = None,
             recommendations =
               [(''Rural Mobile Money Agent Expansion'', ''HIGH'', 0),
                (''Financial Literacy Programs'', ''HIGH'', 0),
                (''Digital-First Service Strategy'', ''MEDIUM'', 0)]\<rparr>, df)"
proof -
  have filt: "rows (apply_filters t [] urban_rural_filter) = []"
    by (simp add: apply_filters_def Let_def)
  have demo: "show_demographic_analysis df =
       Inr (\<lparr>edu_analysis = [],
             age_analysis = [(''18-25'', None, None), (''26-35'', None, None),
                             (''36-45'', None, None), (''46-55'', None, None),
                             (''56+'', None, None)]\<rparr>,
            df\<lparr>age_group := Some []\<rparr>)"
    using assms(2)
    by (simp add: show_demographic_analysis_def Let_def cut_ages groupby_categorical_def)
       (simp add: age_labels_def)
  have prov: "show_provincial_analysis srt df = Inr ([], df)"
    using assms
    by (simp add: show_provincial_analysis_def sort_values_def province_groups_def
        sort_contract_Nil)
  have usage: "show_service_usage df =
       Inr (\<lparr>service_dist = [],
             income_service = [(''Q1'', None, None, None, None), (''Q2'', None, None, None, None),
                               (''Q3'', None, None, None, None), (''Q4'', None, None, None, None),
                               (''Q5'', None, None, None, None)]\<rparr>,
            df\<lparr>service_count := Some []\<rparr>)"
    using assms(2)
    by (simp add: show_service_usage_def Let_def value_counts_sort_index_def
        groupby_categorical_def quintile_labels_def)
  have segs: "show_market_segments df =
       Inr (\<lparr>segments = [(''Digital Champions'', 0), (''Mobile-Only Users'', 0),
                          (''Traditional Banking'', 0), (''Financially Excluded'', 0)],
             segment_data = []\<rparr>, df)"
    using assms(2)
    by (simp add: show_market_segments_def Let_def segment_frames_def digital_champions_def
        mobile_only_def bank_only_def excluded_def)
  have pol: "show_policy_insights df =
       Inr (\<lparr>urban_rural_gap = None, rural_excluded = 0, mobile_advantage = None,
             recommendations =
               [(''Rural Mobile Money Agent Expansion'', ''HIGH'', 0),
                (''Financial Literacy Programs'', ''HIGH'', 0),
                (''Digital-First Service Strategy'', ''MEDIUM'', 0)]\<rparr>, df)"
    using assms(2)
    by (simp add: show_policy_insights_def Let_def nan_minus_def)
  from filt demo prov usage segs pol show ?thesis by simp
qed

theorem views_on_empty_view_witness:
  "sort_contract (sort_key :: (province_stat \<Rightarrow> rat) \<Rightarrow> province_stat list \<Rightarrow> province_stat list)
   \<and> rows no_province_view = []
   \<and> show_provincial_analysis sort_key no_province_view = Inr ([], no_province_view)
   \<and> map_sum id (\<lambda>(out, df'). service_dist out) (show_service_usage no_province_view) = Inr []
   \<and> map_sum id (\<lambda>(out, df'). edu_analysis out) (show_demographic_analysis no_province_view)
       = Inr []
   \<and> map_sum id (\<lambda>(out, df'). urban_rural_gap out) (show_policy_insights no_province_view)
       = Inr None"
proof -
  have e: "rows no_province_view = []"
    by (simp add: no_province_view_def apply_filters_def Let_def)
  show ?thesis
    using views_on_empty_view [OF sort_key_contract e] sort_key_contract e
    by simp
qed

text \<open>
  The claim as stated fails: with no province selected, the market segmentation returns
  four segments of size 0 and the policy view a NaN adoption gap, without any error.
\<close>

theorem views_on_empty_view_counterexample:
  "no_province_view_all = \<lparr>rows = [], age_group = None, service_count = None\<rparr>
   \<and> show_market_segments no_province_view_all =
       Inr (\<lparr>segments = [(''Digital Champions'', 0), (''Mobile-Only Users'', 0),
                          (''Traditional Banking'', 0), (''Financially Excluded'', 0)],
             segment_data = []\<rparr>, no_province_view_all)
   \<and> map_sum id (\<lambda>(out, df'). mobile_advantage out) (show_policy_insights no_province_view_all)
       = Inr None"
  by (simp add: no_province_view_all_def apply_filters_def Let_def show_market_segments_def
      segment_frames_def digital_champions_def mobile_only_def bank_only_def excluded_def
      show_policy_insights_def nan_minus_def)

section \<open>Failure of the quintile computation\<close>

lemma lo_le: "k \<le> 5 \<Longrightarrow> (k * m) div 5 \<le> (m::nat)"
  by (metis div_le_mono div_mult_self_is_m mult.commute mult_le_mono1 zero_less_numeral)






lemma quintile_column:
  "map_sum id (map income_quintile) (prepare_analysis_data demographics financial_services)
     = qcut (map monthly_income_rwf (merge_inner demographics financial_services)) 5
         quintile_labels"
proof (cases "qcut (map monthly_income_rwf (merge_inner demographics financial_services)) 5
         quintile_labels")
  case (Inl e)
  then show ?thesis by (simp add: prepare_analysis_data_def)
next
  case (Inr cs)
  from qcut_length [OF Inr]
  have len: "length cs = length (merge_inner demographics financial_services)" by simp
  have "map income_quintile
          (map (\<lambda>(m, c). derive_row m c) (zip (merge_inner demographics financial_services) cs))
        = map snd (zip (merge_inner demographics financial_services) cs)"
    by (simp add: case_prod_unfold)
  also have "\<dots> = cs" using len by simp
  finally show ?thesis using Inr by (simp add: prepare_analysis_data_def)
qed




section \<open>Properties of the income quintiles\<close>

lemma lerp_between:
  fixes a b f :: rat
  assumes "a \<le> b" "0 \<le> f" "f \<le> 1"
  shows "a \<le> a + (b - a) * f" "a + (b - a) * f \<le> b"
proof -
  have "0 \<le> (b - a) * f" using assms by simp
  then show "a \<le> a + (b - a) * f" by simp
  have "(b - a) * f \<le> (b - a) * 1"
    using assms by (intro mult_left_mono) simp_all
  then show "a + (b - a) * f \<le> b" by simp
qed

lemma lerp_mono:
  fixes a b f g :: rat
  assumes "a \<le> b" "f \<le> g"
  shows "a + (b - a) * f \<le> a + (b - a) * g"
  using assms by (simp add: mult_left_mono)

lemma lerp_strict_mono:
  fixes a b f g :: rat
  assumes "a < b" "f < g"
  shows "a + (b - a) * f < a + (b - a) * g"
  using assms by simp

lemma lerp_below:
  fixes a b f :: rat
  assumes "a < b" "f < 1"
  shows "a + (b - a) * f < b"
proof -
  have "(b - a) * f < (b - a) * 1"
    using assms by (intro mult_strict_left_mono) simp_all
  then show ?thesis by simp
qed

lemma frac_bounds:
  "0 \<le> (of_nat (m mod 5) / 5 :: rat)" "(of_nat (m mod 5) / 5 :: rat) < 1"
proof -
  show "0 \<le> (of_nat (m mod 5) / 5 :: rat)" by simp
  have "m mod 5 < 5" by simp
  then have "(of_nat (m mod 5) :: rat) < 5"
    by (metis of_nat_less_iff of_nat_numeral)
  then show "(of_nat (m mod 5) / 5 :: rat) < 1" by simp
qed

lemma quantile_eq:
  "quantile x k 5 =
     sort x ! ((k * (length x - 1)) div 5)
     + (sort x ! (min ((k * (length x - 1)) div 5 + 1) (length x - 1))
        - sort x ! ((k * (length x - 1)) div 5))
       * (of_nat ((k * (length x - 1)) mod 5) / 5)"
  by (simp add: quantile_def Let_def)

lemma quantile_bounds:
  assumes "x \<noteq> []" "k \<le> 5"
  shows "sort x ! ((k * (length x - 1)) div 5) \<le> quantile x k 5"
    and "quantile x k 5 \<le> sort x ! (min ((k * (length x - 1)) div 5 + 1) (length x - 1))"
proof -
  define M where "M = length x - 1"
  define lo where "lo = (k * M) div 5"
  define hi where "hi = min (lo + 1) M"
  have pos: "0 < length x" using assms(1) by simp
  have Mn: "M < length x" unfolding M_def using pos by arith
  have lo: "lo \<le> M" unfolding lo_def using lo_le [OF assms(2)] .
  have lohi: "lo \<le> hi" using lo by (simp add: hi_def)
  have "hi \<le> M" by (simp add: hi_def)
  then have hi: "hi < length (sort x)" using Mn by simp
  have ab: "sort x ! lo \<le> sort x ! hi"
    using sorted_nth_mono [OF sorted_sort lohi hi] .
  have q: "quantile x k 5 = sort x ! lo + (sort x ! hi - sort x ! lo) * (of_nat ((k * M) mod 5) / 5)"
    by (simp add: quantile_eq hi_def lo_def M_def)
  have "sort x ! lo \<le> quantile x k 5"
    unfolding q
    using lerp_between(1) [OF ab frac_bounds(1) less_imp_le [OF frac_bounds(2)]] .
  then show "sort x ! ((k * (length x - 1)) div 5) \<le> quantile x k 5"
    by (simp add: lo_def M_def)
  have "quantile x k 5 \<le> sort x ! hi"
    unfolding q
    using lerp_between(2) [OF ab frac_bounds(1) less_imp_le [OF frac_bounds(2)]] .
  then show "quantile x k 5 \<le> sort x ! (min ((k * (length x - 1)) div 5 + 1) (length x - 1))"
    by (simp add: hi_def lo_def M_def)
qed

lemma quantile_mono:
  assumes "x \<noteq> []" "k \<le> k'" "k' \<le> 5"
  shows "quantile x k 5 \<le> quantile x k' 5"
proof -
  define M where "M = length x - 1"
  define lo where "lo = (k * M) div 5"
  define lo' where "lo' = (k' * M) div 5"
  define hi where "hi = min (lo + 1) M"
  have pos: "0 < length x" using assms(1) by simp
  have Mn: "M < length x" unfolding M_def using pos by arith
  have k5: "k \<le> 5" using assms by simp
  have le: "lo \<le> lo'"
    unfolding lo_def lo'_def using assms(2) by (simp add: div_le_mono)
  have lo': "lo' \<le> M" unfolding lo'_def using lo_le [OF assms(3)] .
  have b1: "quantile x k 5 \<le> sort x ! hi"
    using quantile_bounds(2) [OF assms(1) k5] by (simp add: hi_def lo_def M_def)
  have b2: "sort x ! lo' \<le> quantile x k' 5"
    using quantile_bounds(1) [OF assms(1) assms(3)] by (simp add: lo'_def M_def)
  show ?thesis
  proof (cases "lo < lo'")
    case True
    have h: "hi \<le> lo'" using True by (simp add: hi_def)
    have "lo' < length (sort x)" using lo' Mn by simp
    from sorted_nth_mono [OF sorted_sort h this]
    have "sort x ! hi \<le> sort x ! lo'" .
    with b1 b2 show ?thesis by linarith
  next
    case False
    with le have eq: "lo' = lo" by simp
    have "k * M \<le> k' * M" using assms(2) by simp
    moreover have "k * M = 5 * lo + (k * M) mod 5" by (simp add: lo_def)
    moreover have "k' * M = 5 * lo' + (k' * M) mod 5" by (simp add: lo'_def)
    then have "k' * M = 5 * lo + (k' * M) mod 5" using eq by simp
    ultimately have r: "(k * M) mod 5 \<le> (k' * M) mod 5" by linarith
    have fr: "(of_nat ((k * M) mod 5) / 5 :: rat) \<le> of_nat ((k' * M) mod 5) / 5"
      using r by (simp add: divide_right_mono)
    have lohi: "lo \<le> hi" using lo' eq by (simp add: hi_def)
    have "hi \<le> M" by (simp add: hi_def)
    then have hi: "hi < length (sort x)" using Mn by simp
    have ab: "sort x ! lo \<le> sort x ! hi"
      using sorted_nth_mono [OF sorted_sort lohi hi] .
    have q: "quantile x k 5 = sort x ! lo + (sort x ! hi - sort x ! lo) * (of_nat ((k * M) mod 5) / 5)"
      by (simp add: quantile_eq hi_def lo_def M_def)
    have q': "quantile x k' 5 = sort x ! lo + (sort x ! hi - sort x ! lo) * (of_nat ((k' * M) mod 5) / 5)"
      using eq by (simp add: quantile_eq hi_def lo_def lo'_def M_def)
    show ?thesis
      unfolding q q' using lerp_mono [OF ab fr] .
  qed
qed

lemma quantile_0:
  assumes "x \<noteq> []"
  shows "quantile x 0 5 = sort x ! 0"
  by (simp add: quantile_eq)

lemma quantile_5:
  assumes "x \<noteq> []"
  shows "quantile x 5 5 = sort x ! (length x - 1)"
  by (simp add: quantile_eq)

lemma sort_nth_0_le:
  assumes "v \<in> set x"
  shows "sort x ! 0 \<le> v"
proof -
  from assms have "v \<in> set (sort x)" by simp
  then obtain i where i: "i < length (sort x)" "sort x ! i = v"
    by (metis in_set_conv_nth)
  have "0 \<le> i" by simp
  from sorted_nth_mono [OF sorted_sort this i(1)] i(2) show ?thesis by simp
qed

lemma sort_nth_last_ge:
  assumes "v \<in> set x"
  shows "v \<le> sort x ! (length x - 1)"
proof -
  from assms have "v \<in> set (sort x)" by simp
  then obtain i where i: "i < length (sort x)" "sort x ! i = v"
    by (metis in_set_conv_nth)
  have "i \<le> length x - 1" "length x - 1 < length (sort x)" using i(1) by simp_all
  from sorted_nth_mono [OF sorted_sort this] i(2) show ?thesis by simp
qed

lemma count_below_ge:
  fixes f :: "nat \<Rightarrow> rat"
  assumes mono: "\<And>i j. i \<le> j \<Longrightarrow> j \<le> n \<Longrightarrow> f i \<le> f j"
    and "k \<le> n" "f k < v"
  shows "Suc k \<le> length (filter (\<lambda>b. b < v) (map f [0..<Suc n]))"
proof -
  define ys where "ys = map f [0..<Suc k]"
  define zs where "zs = map f [Suc k..<Suc n]"
  have "[0..<Suc k + (n - k)] = [0..<Suc k] @ [Suc k..<Suc k + (n - k)]"
    by (rule upt_add_eq_append) simp
  then have split: "[0..<Suc n] = [0..<Suc k] @ [Suc k..<Suc n]"
    using assms(2) by simp
  have whole: "map f [0..<Suc n] = ys @ zs"
    unfolding ys_def zs_def by (subst split) (simp only: map_append)
  have len: "length ys = Suc k"
    unfolding ys_def by simp
  have "\<forall>b \<in> set ys. b < v"
  proof
    fix b assume "b \<in> set ys"
    then obtain j where "j \<in> set [0..<Suc k]" "b = f j"
      unfolding ys_def by (auto simp only: set_map)
    then have "j \<le> k" "b = f j" by auto
    with mono [OF this(1) assms(2)] assms(3) show "b < v" by simp
  qed
  then have "filter (\<lambda>b. b < v) ys = ys" by (simp add: filter_id_conv)
  then have "length (filter (\<lambda>b. b < v) (ys @ zs)) = Suc k + length (filter (\<lambda>b. b < v) zs)"
    using len by simp
  then show ?thesis unfolding whole by simp
qed

lemma count_below_le:
  fixes f :: "nat \<Rightarrow> rat"
  assumes mono: "\<And>i j. i \<le> j \<Longrightarrow> j \<le> n \<Longrightarrow> f i \<le> f j"
    and "k \<le> n" "v \<le> f k"
  shows "length (filter (\<lambda>b. b < v) (map f [0..<Suc n])) \<le> k"
proof -
  define ys where "ys = map f [0..<k]"
  define zs where "zs = map f [k..<Suc n]"
  have "[0..<k + (Suc n - k)] = [0..<k] @ [k..<k + (Suc n - k)]"
    by (rule upt_add_eq_append) simp
  then have split: "[0..<Suc n] = [0..<k] @ [k..<Suc n]"
    using assms(2) by simp
  have whole: "map f [0..<Suc n] = ys @ zs"
    unfolding ys_def zs_def by (subst split) (simp only: map_append)
  have len: "length ys = k"
    unfolding ys_def by simp
  have "\<forall>b \<in> set zs. \<not> b < v"
  proof
    fix b assume "b \<in> set zs"
    then obtain j where "j \<in> set [k..<Suc n]" "b = f j"
      unfolding zs_def by (auto simp only: set_map)
    then have "k \<le> j" "j \<le> n" "b = f j" by auto
    with mono [OF this(1,2)] assms(3) show "\<not> b < v" by simp
  qed
  then have "filter (\<lambda>b. b < v) zs = []" by (simp add: filter_empty_conv)
  then have "length (filter (\<lambda>b. b < v) (ys @ zs)) = length (filter (\<lambda>b. b < v) ys)"
    by simp
  also have "\<dots> \<le> length ys" by (rule length_filter_le)
  finally show ?thesis unfolding whole len .
qed

lemma quintile_index_eq:
  "quintile_index x v =
     (if v = quantile x 0 5 then 1
      else length (filter (\<lambda>b. b < v) (map (\<lambda>k. quantile x k 5) [0..<Suc 5])))"
  by (simp add: quintile_index_def bin_index_def quintile_edges_def searchsorted_left_def
      upt_6)

lemma quintile_index_le_iff:
  assumes "x \<noteq> []" "v \<in> set x" "1 \<le> k" "k \<le> 5"
  shows "quintile_index x v \<le> k \<longleftrightarrow> v \<le> quantile x k 5"
proof
  have mono: "\<And>i j. i \<le> j \<Longrightarrow> j \<le> 5 \<Longrightarrow> quantile x i 5 \<le> quantile x j 5"
    using quantile_mono [OF assms(1)] .
  {
    assume le: "v \<le> quantile x k 5"
    show "quintile_index x v \<le> k"
    proof (cases "v = quantile x 0 5")
      case True
      then show ?thesis using assms(3) by (simp add: quintile_index_eq)
    next
      case False
      then show ?thesis
        using count_below_le [of 5 "\<lambda>k. quantile x k 5", OF mono assms(4) le]
        by (simp add: quintile_index_eq)
    qed
  }
  {
    assume idx: "quintile_index x v \<le> k"
    show "v \<le> quantile x k 5"
    proof (rule ccontr)
      assume "\<not> v \<le> quantile x k 5"
      then have lt: "quantile x k 5 < v" by simp
      have "quantile x 0 5 \<le> quantile x k 5" using mono [of 0 k] assms(4) by simp
      with lt have ne: "v \<noteq> quantile x 0 5" by auto
      from count_below_ge [of 5 "\<lambda>k. quantile x k 5", OF mono assms(4) lt] ne
      have "Suc k \<le> quintile_index x v" by (simp add: quintile_index_eq)
      with idx show False by simp
    qed
  }
qed

lemma quintile_index_pos:
  assumes "x \<noteq> []" "v \<in> set x"
  shows "1 \<le> quintile_index x v"
proof (cases "v = quantile x 0 5")
  case True
  then show ?thesis by (simp add: quintile_index_eq)
next
  case False
  have mono: "\<And>i j. i \<le> j \<Longrightarrow> j \<le> 5 \<Longrightarrow> quantile x i 5 \<le> quantile x j 5"
    using quantile_mono [OF assms(1)] .
  have "quantile x 0 5 \<le> v"
    using sort_nth_0_le [OF assms(2)] by (simp add: quantile_0 [OF assms(1)])
  with False have "quantile x 0 5 < v" by simp
  from count_below_ge [of 5 "\<lambda>k. quantile x k 5", OF mono _ this] False
  show ?thesis by (simp add: quintile_index_eq)
qed

lemma quintile_index_le_5:
  assumes "x \<noteq> []" "v \<in> set x"
  shows "quintile_index x v \<le> 5"
proof -
  have "v \<le> quantile x 5 5"
    using sort_nth_last_ge [OF assms(2)] by (simp add: quantile_5 [OF assms(1)])
  then show ?thesis
    using quintile_index_le_iff [OF assms, of 5] by simp
qed

lemma quintile_index_mono:
  assumes "x \<noteq> []" "v \<in> set x" "w \<in> set x" "v \<le> w"
  shows "quintile_index x v \<le> quintile_index x w"
proof -
  have k: "1 \<le> quintile_index x w" "quintile_index x w \<le> 5"
    using quintile_index_pos [OF assms(1,3)] quintile_index_le_5 [OF assms(1,3)] .
  from quintile_index_le_iff [OF assms(1,3) k] have "w \<le> quantile x (quintile_index x w) 5"
    by simp
  with assms(4) have "v \<le> quantile x (quintile_index x w) 5" by simp
  with quintile_index_le_iff [OF assms(1,2) k] show ?thesis by simp
qed

lemma quintile_index_min:
  assumes "x \<noteq> []" "v \<in> set x" "\<forall>w \<in> set x. v \<le> w"
  shows "quintile_index x v = 1"
proof -
  have "sort x ! 0 \<in> set x"
    using assms(1) by (metis length_greater_0_conv length_sort nth_mem set_sort)
  with assms(3) have "v \<le> sort x ! 0" by simp
  with sort_nth_0_le [OF assms(2)] have "v = quantile x 0 5"
    by (simp add: quantile_0 [OF assms(1)])
  then show ?thesis by (simp add: quintile_index_eq)
qed

lemma count_le_sorted:
  fixes s :: "rat list"
  assumes "sorted s" "j < length s" "s ! j \<le> e" "Suc j < length s \<Longrightarrow> e < s ! Suc j"
  shows "length (filter (\<lambda>v. v \<le> e) s) = Suc j"
proof -
  define ys where "ys = take (Suc j) s"
  define zs where "zs = drop (Suc j) s"
  have whole: "s = ys @ zs" by (simp add: ys_def zs_def)
  have len: "length ys = Suc j" using assms(2) by (simp add: ys_def)
  have "\<forall>v \<in> set ys. v \<le> e"
  proof
    fix v assume "v \<in> set ys"
    then obtain i where i: "i < length ys" "ys ! i = v" by (metis in_set_conv_nth)
    then have "i \<le> j" using len by simp
    from sorted_nth_mono [OF assms(1) this assms(2)] have "s ! i \<le> s ! j" .
    moreover have "ys ! i = s ! i" using i(1) by (simp add: ys_def)
    ultimately show "v \<le> e" using i(2) assms(3) by simp
  qed
  then have f1: "filter (\<lambda>v. v \<le> e) ys = ys" by (simp add: filter_id_conv)
  have "\<forall>v \<in> set zs. \<not> v \<le> e"
  proof
    fix v assume "v \<in> set zs"
    then obtain i where i: "i < length zs" "zs ! i = v" by (metis in_set_conv_nth)
    then have in_range: "Suc j + i < length s" by (simp add: zs_def)
    then have sj: "Suc j < length s" by simp
    have "Suc j \<le> Suc j + i" by simp
    from sorted_nth_mono [OF assms(1) this in_range] have "s ! Suc j \<le> s ! (Suc j + i)" .
    moreover have "zs ! i = s ! (Suc j + i)" using in_range by (simp add: zs_def)
    ultimately show "\<not> v \<le> e" using i(2) assms(4) [OF sj] by simp
  qed
  then have f2: "filter (\<lambda>v. v \<le> e) zs = []" by (simp add: filter_empty_conv)
  have "length (filter (\<lambda>v. v \<le> e) (ys @ zs)) = Suc j"
    using f1 f2 len by simp
  then show ?thesis using whole by simp
qed

lemma length_filter_sort:
  fixes x :: "rat list"
  shows "length (filter P (sort x)) = length (filter P x)"
proof -
  have "mset (filter P (sort x)) = mset (filter P x)"
    by (simp only: mset_filter mset_sort)
  then show ?thesis by (metis size_mset)
qed

lemma sort_strict:
  fixes x :: "rat list"
  assumes "distinct x" "i < j" "j < length x"
  shows "sort x ! i < sort x ! j"
proof -
  have "sorted (sort x)" "distinct (sort x)" using assms(1) by simp_all
  then have "sorted_wrt (<) (sort x)" by (simp add: strict_sorted_iff)
  from sorted_wrt_nth_less [OF this assms(2)] assms(3) show ?thesis by simp
qed

lemma quantile_below_next:
  assumes "distinct x" "k \<le> 5" "Suc ((k * (length x - 1)) div 5) < length x"
  shows "quantile x k 5 < sort x ! Suc ((k * (length x - 1)) div 5)"
proof -
  define M where "M = length x - 1"
  define lo where "lo = (k * M) div 5"
  have lt: "Suc lo < length x" using assms(3) by (simp add: lo_def M_def)
  then have hi: "min (lo + 1) M = Suc lo" by (simp add: M_def)
  have ab: "sort x ! lo < sort x ! Suc lo"
    using sort_strict [OF assms(1) _ lt] by simp
  have q: "quantile x k 5
      = sort x ! lo + (sort x ! Suc lo - sort x ! lo) * (of_nat ((k * M) mod 5) / 5)"
    using hi by (simp add: quantile_eq lo_def M_def)
  have "quantile x k 5 < sort x ! Suc lo"
    unfolding q using lerp_below [OF ab frac_bounds(2)] .
  then show ?thesis by (simp add: lo_def M_def)
qed

lemma count_le_quantile:
  assumes "distinct x" "x \<noteq> []" "k \<le> 5"
  shows "length (filter (\<lambda>v. v \<le> quantile x k 5) x) = Suc ((k * (length x - 1)) div 5)"
proof -
  define lo where "lo = (k * (length x - 1)) div 5"
  have "lo \<le> length x - 1" unfolding lo_def using lo_le [OF assms(3)] .
  moreover have "0 < length x" using assms(2) by simp
  ultimately have "lo < length x" by arith
  then have lo: "lo < length (sort x)" by simp
  have a: "sort x ! lo \<le> quantile x k 5"
    using quantile_bounds(1) [OF assms(2,3)] by (simp add: lo_def)
  have b: "Suc lo < length (sort x) \<Longrightarrow> quantile x k 5 < sort x ! Suc lo"
    using quantile_below_next [OF assms(1,3)] by (simp add: lo_def)
  have "length (filter (\<lambda>v. v \<le> quantile x k 5) (sort x)) = Suc lo"
    using count_le_sorted [OF sorted_sort lo a b] .
  then show ?thesis by (simp add: length_filter_sort lo_def)
qed

lemma count_index_le:
  assumes "distinct x" "x \<noteq> []" "1 \<le> k" "k \<le> 5"
  shows "length (filter (\<lambda>v. quintile_index x v \<le> k) x) = Suc ((k * (length x - 1)) div 5)"
proof -
  have "filter (\<lambda>v. quintile_index x v \<le> k) x = filter (\<lambda>v. v \<le> quantile x k 5) x"
    using quintile_index_le_iff [OF assms(2) _ assms(3,4)] by (intro filter_cong) auto
  then show ?thesis using count_le_quantile [OF assms(1,2,4)] by simp
qed

lemma count_index_zero:
  assumes "x \<noteq> []"
  shows "length (filter (\<lambda>v. quintile_index x v \<le> 0) x) = 0"
proof -
  have "\<forall>v \<in> set x. \<not> quintile_index x v \<le> 0"
    using quintile_index_pos [OF assms] by fastforce
  then show ?thesis by (simp add: filter_empty_conv)
qed

lemma count_level:
  fixes f :: "'a \<Rightarrow> nat"
  shows "length (filter (\<lambda>v. f v \<le> Suc k) xs)
     = length (filter (\<lambda>v. f v \<le> k) xs) + length (filter (\<lambda>v. f v = Suc k) xs)"
  by (induction xs) auto

lemma count_index_eq:
  assumes "distinct x" "x \<noteq> []" "k < 5"
  shows "length (filter (\<lambda>v. quintile_index x v = Suc k) x)
     = (if k = 0 then Suc ((length x - 1) div 5)
        else (Suc k * (length x - 1)) div 5 - (k * (length x - 1)) div 5)"
proof (cases "k = 0")
  case True
  have "length (filter (\<lambda>v. quintile_index x v \<le> Suc 0) x) = Suc ((length x - 1) div 5)"
    using count_index_le [OF assms(1,2), of 1] by simp
  with count_level [of "quintile_index x" 0 x] count_index_zero [OF assms(2)] True
  show ?thesis by simp
next
  case False
  define A where "A = length (filter (\<lambda>v. quintile_index x v \<le> k) x)"
  define B where "B = length (filter (\<lambda>v. quintile_index x v \<le> Suc k) x)"
  define C where "C = length (filter (\<lambda>v. quintile_index x v = Suc k) x)"
  define p where "p = (k * (length x - 1)) div 5"
  define p' where "p' = (Suc k * (length x - 1)) div 5"
  from False have k: "1 \<le> k" "k \<le> 5" "1 \<le> Suc k" "Suc k \<le> 5" using assms(3) by simp_all
  have a: "A = Suc p" unfolding A_def p_def by (rule count_index_le [OF assms(1,2) k(1,2)])
  have b: "B = Suc p'" unfolding B_def p'_def by (rule count_index_le [OF assms(1,2) k(3,4)])
  have c: "B = A + C" unfolding A_def B_def C_def by (rule count_level)
  from a b c have "C = p' - p" by linarith
  then show ?thesis using False unfolding C_def p_def p'_def by simp
qed

lemma div5_linear:
  fixes a b k :: nat
  shows "(k * (5 * a + b)) div 5 = k * a + (k * b) div 5"
proof -
  have "k * (5 * a + b) = 5 * (k * a) + k * b" by (simp add: algebra_simps)
  then show ?thesis by simp
qed

lemma bucket_size_arith:
  fixes M k :: nat
  assumes "k < 5"
  shows "(if k = 0 then Suc (M div 5) else (Suc k * M) div 5 - (k * M) div 5) = Suc M div 5
       \<or> (if k = 0 then Suc (M div 5) else (Suc k * M) div 5 - (k * M) div 5) = (Suc M + 4) div 5"
proof -
  define a where "a = M div 5"
  define b where "b = M mod 5"
  have M: "M = 5 * a + b" by (simp add: a_def b_def)
  have "b < 5" by (simp add: b_def)
  then have b: "b = 0 \<or> b = 1 \<or> b = 2 \<or> b = 3 \<or> b = 4" by linarith
  from assms have k: "k = 0 \<or> k = 1 \<or> k = 2 \<or> k = 3 \<or> k = 4" by linarith
  have s1: "Suc M div 5 = a + Suc b div 5"
    using div5_linear [of 1 a "Suc b"] by (simp add: M)
  have s2: "(Suc M + 4) div 5 = a + (b + 5) div 5"
    using div5_linear [of 1 a "b + 5"] by (simp add: M)
  have m: "\<And>k. (k * M) div 5 = k * a + (k * b) div 5"
    unfolding M by (rule div5_linear)
  have m1: "M div 5 = a" by (simp add: a_def)
  show ?thesis
    unfolding s1 s2 m m1 using b k by (elim disjE) simp_all
qed

lemma quantile_strict_mono:
  assumes "distinct x" "2 \<le> length x" "k < k'" "k' \<le> 5"
  shows "quantile x k 5 < quantile x k' 5"
proof -
  define M where "M = length x - 1"
  define lo where "lo = (k * M) div 5"
  define lo' where "lo' = (k' * M) div 5"
  have ne: "x \<noteq> []" using assms(2) by auto
  have M1: "1 \<le> M" using assms(2) by (simp add: M_def)
  have Mn: "M < length x" unfolding M_def using assms(2) by arith
  have k5: "k \<le> 5" using assms by simp
  have le: "lo \<le> lo'"
    unfolding lo_def lo'_def using assms(3) by (simp add: div_le_mono)
  have lo': "lo' \<le> M" unfolding lo'_def using lo_le [OF assms(4)] .
  have b2: "sort x ! lo' \<le> quantile x k' 5"
    using quantile_bounds(1) [OF ne assms(4)] by (simp add: lo'_def M_def)
  show ?thesis
  proof (cases "lo < lo'")
    case True
    then have sl: "Suc lo < length x" using lo' Mn by simp
    have b1: "quantile x k 5 < sort x ! Suc lo"
      using quantile_below_next [OF assms(1) k5] sl by (simp add: lo_def M_def)
    have "Suc lo \<le> lo'" using True by simp
    moreover have "lo' < length (sort x)" using lo' Mn by simp
    ultimately have "sort x ! Suc lo \<le> sort x ! lo'"
      by (rule sorted_nth_mono [OF sorted_sort])
    with b1 b2 show ?thesis by linarith
  next
    case False
    with le have eq: "lo' = lo" by simp
    have "k * M < k' * M" using assms(3) M1 by simp
    moreover have "k * M = 5 * lo + (k * M) mod 5" by (simp add: lo_def)
    moreover have "k' * M = 5 * lo' + (k' * M) mod 5" by (simp add: lo'_def)
    ultimately have r: "(k * M) mod 5 < (k' * M) mod 5" using eq by linarith
    have fr: "(of_nat ((k * M) mod 5) / 5 :: rat) < of_nat ((k' * M) mod 5) / 5"
      using r by (simp add: divide_strict_right_mono)
    have "k * M \<le> 4 * M" using assms(3,4) by simp
    then have "lo \<le> (4 * M) div 5" unfolding lo_def by (rule div_le_mono)
    moreover have "(4 * M) div 5 < M" using M1 by simp
    ultimately have loM: "lo < M" by simp
    then have sl: "Suc lo < length x" using Mn by simp
    have hi: "min (lo + 1) M = Suc lo" using loM by simp
    have ab: "sort x ! lo < sort x ! Suc lo"
      using sort_strict [OF assms(1) _ sl] by simp
    have q: "quantile x k 5
        = sort x ! lo + (sort x ! Suc lo - sort x ! lo) * (of_nat ((k * M) mod 5) / 5)"
      using hi by (simp add: quantile_eq lo_def M_def)
    have q': "quantile x k' 5
        = sort x ! lo + (sort x ! Suc lo - sort x ! lo) * (of_nat ((k' * M) mod 5) / 5)"
      using hi eq by (simp add: quantile_eq lo_def lo'_def M_def)
    show ?thesis
      unfolding q q' using lerp_strict_mono [OF ab fr] .
  qed
qed

lemma distinct_quintile_edges:
  assumes "distinct x" "2 \<le> length x"
  shows "distinct (quintile_edges x)"
proof -
  have "inj_on (\<lambda>k. quantile x k 5) (set [0..<5 + 1])"
  proof (rule inj_onI)
    fix i j assume ij: "i \<in> set [0..<5 + 1]" "j \<in> set [0..<5 + 1]"
      and eq: "quantile x i 5 = quantile x j 5"
    then have b: "i \<le> 5" "j \<le> 5" by auto
    show "i = j"
    proof (rule ccontr)
      assume "i \<noteq> j"
      then consider "i < j" | "j < i" by linarith
      then show False
      proof cases
        case 1
        from quantile_strict_mono [OF assms 1 b(2)] eq show False by simp
      next
        case 2
        from quantile_strict_mono [OF assms 2 b(1)] eq show False by simp
      qed
    qed
  qed
  then show ?thesis
    unfolding quintile_edges_def by (simp only: distinct_map distinct_upt simp_thms)
qed

lemma qcut_5:
  "qcut x 5 labels =
     (if x = [] \<or> \<not> distinct (quintile_edges x) then Inl ValueError
      else Inr (map (bin_label (quintile_edges x) labels True) x))"
  by (simp add: qcut_def bins_to_cuts_def quintile_edges_def)

lemma prepare_rows:
  assumes "prepare_analysis_data demographics financial_services = Inr df"
  defines "x \<equiv> map monthly_income_rwf (merge_inner demographics financial_services)"
  shows "x \<noteq> []" "distinct (quintile_edges x)" "map monthly_income_rwf df = x"
    "\<forall>r \<in> set df. income_quintile r
        = bin_label (quintile_edges x) quintile_labels True (monthly_income_rwf r)"
proof -
  let ?m = "merge_inner demographics financial_services"
  let ?g = "bin_label (quintile_edges x) quintile_labels True"
  from assms(1) obtain cs where cs: "qcut x 5 quintile_labels = Inr cs"
    and df: "df = map (\<lambda>(m, c). derive_row m c) (zip ?m cs)"
    by (auto simp: prepare_analysis_data_def x_def Let_def split: sum.splits)
  from cs show ne: "x \<noteq> []" and "distinct (quintile_edges x)"
    by (auto simp: qcut_5 split: if_splits)
  from cs have "cs = map ?g x" by (auto simp: qcut_5 split: if_splits)
  then have "cs = map (\<lambda>m. ?g (monthly_income_rwf m)) ?m" by (simp add: x_def comp_def)
  then have "zip ?m cs = map (\<lambda>m. (m, ?g (monthly_income_rwf m))) ?m"
    by (simp add: zip_map2 zip_same_conv_map)
  then have df': "df = map (\<lambda>m. derive_row m (?g (monthly_income_rwf m))) ?m"
    using df by (simp add: comp_def)
  show "map monthly_income_rwf df = x"
    by (simp add: df' x_def comp_def)
  show "\<forall>r \<in> set df. income_quintile r = ?g (monthly_income_rwf r)"
    by (auto simp: df')
qed

lemma length_quintile_edges: "length (quintile_edges x) = 6"
  by (simp add: quintile_edges_def)

lemma bin_label_index:
  assumes "x \<noteq> []" "v \<in> set x"
  shows "bin_label (quintile_edges x) quintile_labels True v
     = Some (quintile_labels ! (quintile_index x v - 1))"
  using quintile_index_pos [OF assms] quintile_index_le_5 [OF assms]
  by (simp add: bin_label_def length_quintile_edges quintile_index_def [symmetric])

lemma in_1_5:
  fixes i :: nat
  assumes "1 \<le> i" "i \<le> 5"
  shows "i = 1 \<or> i = 2 \<or> i = 3 \<or> i = 4 \<or> i = 5"
  using assms by linarith

lemma label_rank_nth:
  assumes "1 \<le> i" "i \<le> 5"
  shows "label_rank (Some (quintile_labels ! (i - 1))) = i"
  using in_1_5 [OF assms]
  by (elim disjE) (simp_all add: label_rank_def quintile_labels_def)

lemma label_nth_eq_iff:
  assumes "1 \<le> i" "i \<le> 5" "1 \<le> k" "k \<le> 5"
  shows "quintile_labels ! (i - 1) = quintile_labels ! (k - 1) \<longleftrightarrow> i = k"
proof -
  have "label_rank (Some (quintile_labels ! (i - 1))) = i"
    "label_rank (Some (quintile_labels ! (k - 1))) = k"
    using label_rank_nth assms by simp_all
  then show ?thesis by metis
qed

lemma in_quintile_labels:
  assumes "1 \<le> i" "i \<le> 5"
  shows "quintile_labels ! (i - 1) \<in> set quintile_labels"
proof -
  have "i - 1 < length quintile_labels" using assms by (simp add: quintile_labels_def)
  then show ?thesis by (rule nth_mem)
qed

lemma filter_eq_singleton:
  assumes "distinct js" "i \<in> set js"
  shows "filter (\<lambda>j. j = i) js = [i]"
  using assms by (induction js) (auto simp: filter_empty_conv)

lemma merge_of_incomes:
  "map monthly_income_rwf
     (merge_inner (demographics_of_incomes xs) (services_of_incomes xs)) = xs"
proof -
  define mkf where "mkf = (\<lambda>i::nat. \<lparr>f_respondent_id = int i, f_has_bank_account = 0,
     f_uses_mobile_money = 1, f_has_savings = 0, f_has_loan = 0, f_uses_insurance = 0,
     f_financial_literacy_score = 5\<rparr>)"
  define mkd where "mkd = (\<lambda>(i::nat, income::rat).
     \<lparr>d_respondent_id = int i, d_province = ''Kigali'', d_urban_rural = ''Urban'',
      d_age = 30, d_education = ''Secondary'', d_monthly_income_rwf = income\<rparr>)"
  have fs: "services_of_incomes xs = map mkf [1..<length xs + 1]"
    by (simp add: services_of_incomes_def mkf_def)
  have ds: "demographics_of_incomes xs = map mkd (enumerate 1 xs)"
    by (simp add: demographics_of_incomes_def mkd_def)
  have one: "map monthly_income_rwf
      (map (join_rows (mkd p)) (filter (\<lambda>f. f_respondent_id f = d_respondent_id (mkd p))
         (services_of_incomes xs))) = [snd p]"
    if p: "p \<in> set (enumerate 1 xs)" for p
  proof -
    obtain i income where pi: "p = (i, income)" by (cases p)
    with p have i: "i \<in> set [1..<length xs + 1]"
      by (auto simp: in_set_enumerate_eq)
    have "filter (\<lambda>f. f_respondent_id f = d_respondent_id (mkd p)) (services_of_incomes xs)
        = map mkf (filter (\<lambda>j. j = i) [1..<length xs + 1])"
      by (simp add: fs filter_map comp_def mkf_def mkd_def pi)
    also have "\<dots> = [mkf i]"
      using filter_eq_singleton [OF distinct_upt i] by simp
    finally show ?thesis
      by (simp add: join_rows_def mkd_def pi)
  qed
  have "map monthly_income_rwf
      (merge_inner (demographics_of_incomes xs) (services_of_incomes xs))
      = concat (map (\<lambda>p. map monthly_income_rwf
          (map (join_rows (mkd p)) (filter (\<lambda>f. f_respondent_id f = d_respondent_id (mkd p))
             (services_of_incomes xs)))) (enumerate 1 xs))"
    by (simp add: merge_inner_def ds map_concat comp_def)
  also have "\<dots> = concat (map (\<lambda>p. [snd p]) (enumerate 1 xs))"
    using one by (intro arg_cong [where f = concat] map_cong) auto
  also have "\<dots> = map snd (enumerate 1 xs)"
    by (induction xs rule: rev_induct) (simp_all add: enumerate_append_eq)
  also have "\<dots> = xs" by simp
  finally show ?thesis .
qed

lemma quintiles_of_incomes_eq:
  "quintiles_of_incomes xs = qcut xs 5 quintile_labels"
  by (simp add: quintiles_of_incomes_def quintile_column merge_of_incomes)

text \<open>
  The claim as stated fails on tied incomes: of ten rows, the three rows with income 40000
  go to Q2 together with the row with 30000, and no row goes to Q3: the group sizes are
  2, 4, 0, 2, 2, where the floor and the ceiling of 10/5 are both 2.
\<close>

theorem tied_incomes_counterexample:
  "quintiles_of_incomes tied_incomes =
     Inr [Some ''Q1'', Some ''Q1'', Some ''Q2'', Some ''Q2'', Some ''Q2'', Some ''Q2'',
          Some ''Q4'', Some ''Q4'', Some ''Q5'', Some ''Q5'']
   \<and> length tied_incomes div 5 = 2 \<and> (length tied_incomes + 4) div 5 = 2"
  unfolding quintiles_of_incomes_eq
  by (simp add: tied_incomes_def eval_defs upt_6)

lemma prepare_succeeds:
  assumes "distinct (map monthly_income_rwf (merge_inner demographics financial_services))"
    and "2 \<le> length (merge_inner demographics financial_services)"
  shows "\<exists>df. prepare_analysis_data demographics financial_services = Inr df"
proof -
  let ?x = "map monthly_income_rwf (merge_inner demographics financial_services)"
  have "2 \<le> length ?x" using assms(2) by simp
  from distinct_quintile_edges [OF assms(1) this] have "distinct (quintile_edges ?x)" .
  moreover have "?x \<noteq> []" using assms(2) by auto
  ultimately have "qcut ?x 5 quintile_labels
      = Inr (map (bin_label (quintile_edges ?x) quintile_labels True) ?x)"
    by (simp add: qcut_5)
  then show ?thesis by (simp add: prepare_analysis_data_def Let_def)
qed

lemma quintile_index_max:
  assumes "x \<noteq> []" "distinct (quintile_edges x)" "v \<in> set x" "\<forall>w \<in> set x. w \<le> v"
  shows "quintile_index x v = 5"
proof (rule ccontr)
  assume "quintile_index x v \<noteq> 5"
  with quintile_index_le_5 [OF assms(1,3)] have "quintile_index x v \<le> 4" by simp
  with quintile_index_le_iff [OF assms(1,3), of 4] have a: "v \<le> quantile x 4 5" by simp
  have "sort x ! (length x - 1) \<in> set x"
    using assms(1) by (metis diff_less length_greater_0_conv length_sort nth_mem set_sort
        zero_less_one)
  with assms(4) have b: "quantile x 5 5 \<le> v" by (simp add: quantile_5 [OF assms(1)])
  have c: "quantile x 4 5 \<le> quantile x 5 5" using quantile_mono [OF assms(1), of 4 5] by simp
  from a b c have "quantile x 4 5 = quantile x 5 5" by linarith
  moreover have "quantile x 4 5 \<noteq> quantile x 5 5"
    using assms(2) by (simp add: quintile_edges_def upt_6)
  ultimately show False by simp
qed

lemma row_quintile:
  assumes "prepare_analysis_data demographics financial_services = Inr df" "r \<in> set df"
  shows "monthly_income_rwf r \<in> set (map monthly_income_rwf df)"
    and "income_quintile r = Some (quintile_labels !
           (quintile_index (map monthly_income_rwf df) (monthly_income_rwf r) - 1))"
proof -
  show in_x: "monthly_income_rwf r \<in> set (map monthly_income_rwf df)"
    using assms(2) by simp
  have ne: "map monthly_income_rwf df \<noteq> []" using assms(2) by auto
  from prepare_rows(3,4) [OF assms(1)] assms(2)
  have "income_quintile r = bin_label (quintile_edges (map monthly_income_rwf df))
      quintile_labels True (monthly_income_rwf r)"
    by simp
  then show "income_quintile r = Some (quintile_labels !
           (quintile_index (map monthly_income_rwf df) (monthly_income_rwf r) - 1))"
    using bin_label_index [OF ne in_x] by simp
qed

lemma row_rank:
  assumes "prepare_analysis_data demographics financial_services = Inr df" "r \<in> set df"
  shows "quintile_rank r = quintile_index (map monthly_income_rwf df) (monthly_income_rwf r)"
proof -
  have ne: "map monthly_income_rwf df \<noteq> []" using assms(2) by auto
  note rq = row_quintile [OF assms]
  show ?thesis
    unfolding quintile_rank_def rq(2)
    using label_rank_nth [OF quintile_index_pos [OF ne rq(1)] quintile_index_le_5 [OF ne rq(1)]] .
qed

lemma quintile_size_index:
  assumes "prepare_analysis_data demographics financial_services = Inr df" "k < 5"
  shows "quintile_size df (quintile_labels ! k)
     = length (filter (\<lambda>v. quintile_index (map monthly_income_rwf df) v = Suc k)
         (map monthly_income_rwf df))"
proof -
  let ?x = "map monthly_income_rwf df"
  have "filter (\<lambda>r. income_quintile r = Some (quintile_labels ! k)) df
      = filter (\<lambda>r. quintile_index ?x (monthly_income_rwf r) = Suc k) df"
  proof (rule filter_cong [OF refl])
    fix r assume r: "r \<in> set df"
    then have ne: "?x \<noteq> []" by auto
    note rq = row_quintile [OF assms(1) r]
    have k: "1 \<le> Suc k" "Suc k \<le> 5" using assms(2) by simp_all
    from label_nth_eq_iff [OF quintile_index_pos [OF ne rq(1)]
        quintile_index_le_5 [OF ne rq(1)] k]
    show "(income_quintile r = Some (quintile_labels ! k))
        = (quintile_index ?x (monthly_income_rwf r) = Suc k)"
      unfolding rq(2) by simp
  qed
  then have "quintile_size df (quintile_labels ! k)
      = length (filter (\<lambda>r. quintile_index ?x (monthly_income_rwf r) = Suc k) df)"
    by (simp add: quintile_size_def)
  also have "\<dots> = length (filter (\<lambda>v. quintile_index ?x v = Suc k) ?x)"
    by (simp add: filter_map comp_def)
  finally show ?thesis .
qed

lemma quintile_size_balanced:
  assumes "prepare_analysis_data demographics financial_services = Inr df"
    and "distinct (map monthly_income_rwf df)" and "l \<in> set quintile_labels"
  shows "quintile_size df l = length df div 5 \<or> quintile_size df l = (length df + 4) div 5"
proof -
  let ?x = "map monthly_income_rwf df"
  define M where "M = length df - 1"
  from prepare_rows(1,3) [OF assms(1)] have ne: "?x \<noteq> []" by simp
  then have N: "length df = Suc M" by (simp add: M_def)
  from assms(3) obtain k where "k < length quintile_labels" "quintile_labels ! k = l"
    by (metis in_set_conv_nth)
  then have k: "k < 5" "l = quintile_labels ! k"
    by (simp_all add: quintile_labels_def)
  have size: "quintile_size df l
      = (if k = 0 then Suc (M div 5) else (Suc k * M) div 5 - (k * M) div 5)"
    using quintile_size_index [OF assms(1) k(1)] count_index_eq [OF assms(2) ne k(1)]
    by (simp add: k(2) M_def)
  show ?thesis
    unfolding size N using bucket_size_arith [OF k(1), of M] .
qed

text \<open>
  Claim C3, as amended. The preparation succeeds whenever the merged table has at least
  two rows and pairwise distinct incomes. Whenever it succeeds, every row has exactly one
  of the labels Q1 to Q5, and the label is monotone in the income: a row with a lower or
  equal income never has a higher quintile (so rows with equal incomes share their
  quintile: ties are not split by row order), the rows with the lowest income are in Q1
  and the rows with the highest income in Q5. If the incomes of the \<open>N\<close> rows are pairwise
  distinct, each of the five groups has \<open>N div 5\<close> or \<open>(N + 4) div 5\<close> rows, the floor and
  the ceiling of \<open>N / 5\<close>.
\<close>

theorem income_quintile_binning:
  "(distinct (map monthly_income_rwf (merge_inner demographics financial_services))
      \<and> 2 \<le> length (merge_inner demographics financial_services)
    \<longrightarrow> (\<exists>df. prepare_analysis_data demographics financial_services = Inr df))
   \<and> (\<forall>df. prepare_analysis_data demographics financial_services = Inr df \<longrightarrow>
         length df = length (merge_inner demographics financial_services)
       \<and> (\<forall>r \<in> set df. income_quintile r \<in> Some ` set quintile_labels)
       \<and> (\<forall>r \<in> set df. \<forall>r' \<in> set df.
             monthly_income_rwf r \<le> monthly_income_rwf r' \<longrightarrow>
             quintile_rank r \<le> quintile_rank r')
       \<and> (\<forall>r \<in> set df. (\<forall>r' \<in> set df. monthly_income_rwf r \<le> monthly_income_rwf r')
             \<longrightarrow> income_quintile r = Some ''Q1'')
       \<and> (\<forall>r \<in> set df. (\<forall>r' \<in> set df. monthly_income_rwf r' \<le> monthly_income_rwf r)
             \<longrightarrow> income_quintile r = Some ''Q5'')
       \<and> (distinct (map monthly_income_rwf df) \<longrightarrow>
             (\<forall>l \<in> set quintile_labels.
                quintile_size df l = length df div 5
                \<or> quintile_size df l = (length df + 4) div 5)))"
proof (intro conjI allI impI)
  assume "distinct (map monthly_income_rwf (merge_inner demographics financial_services))
      \<and> 2 \<le> length (merge_inner demographics financial_services)"
  then show "\<exists>df. prepare_analysis_data demographics financial_services = Inr df"
    using prepare_succeeds by blast
next
  fix df assume p: "prepare_analysis_data demographics financial_services = Inr df"
  let ?x = "map monthly_income_rwf df"
  from prepare_rows(3) [OF p]
  have "length ?x = length (map monthly_income_rwf (merge_inner demographics financial_services))"
    by simp
  then show "length df = length (merge_inner demographics financial_services)" by simp
  show "\<forall>r \<in> set df. income_quintile r \<in> Some ` set quintile_labels"
  proof
    fix r assume r: "r \<in> set df"
    then have ne: "?x \<noteq> []" by auto
    note rq = row_quintile [OF p r]
    from in_quintile_labels [OF quintile_index_pos [OF ne rq(1)]
        quintile_index_le_5 [OF ne rq(1)]]
    show "income_quintile r \<in> Some ` set quintile_labels"
      unfolding rq(2) by simp
  qed
  show "\<forall>r \<in> set df. \<forall>r' \<in> set df.
      monthly_income_rwf r \<le> monthly_income_rwf r' \<longrightarrow> quintile_rank r \<le> quintile_rank r'"
  proof (intro ballI impI)
    fix r r' assume r: "r \<in> set df" and r': "r' \<in> set df"
      and le: "monthly_income_rwf r \<le> monthly_income_rwf r'"
    from r have ne: "?x \<noteq> []" by auto
    from quintile_index_mono [OF ne row_quintile(1) [OF p r] row_quintile(1) [OF p r'] le]
    show "quintile_rank r \<le> quintile_rank r'"
      by (simp only: row_rank [OF p r] row_rank [OF p r'])
  qed
  show "\<forall>r \<in> set df. (\<forall>r' \<in> set df. monthly_income_rwf r \<le> monthly_income_rwf r')
      \<longrightarrow> income_quintile r = Some ''Q1''"
  proof (intro ballI impI)
    fix r assume r: "r \<in> set df"
      and low: "\<forall>r' \<in> set df. monthly_income_rwf r \<le> monthly_income_rwf r'"
    from r have ne: "?x \<noteq> []" by auto
    from low have "\<forall>w \<in> set ?x. monthly_income_rwf r \<le> w" by auto
    from quintile_index_min [OF ne row_quintile(1) [OF p r] this]
    show "income_quintile r = Some ''Q1''"
      by (simp add: row_quintile(2) [OF p r] quintile_labels_def)
  qed
  show "\<forall>r \<in> set df. (\<forall>r' \<in> set df. monthly_income_rwf r' \<le> monthly_income_rwf r)
      \<longrightarrow> income_quintile r = Some ''Q5''"
  proof (intro ballI impI)
    fix r assume r: "r \<in> set df"
      and high: "\<forall>r' \<in> set df. monthly_income_rwf r' \<le> monthly_income_rwf r"
    from r have ne: "?x \<noteq> []" by auto
    from prepare_rows(2,3) [OF p] have d: "distinct (quintile_edges ?x)" by simp
    from high have "\<forall>w \<in> set ?x. w \<le> monthly_income_rwf r" by auto
    from quintile_index_max [OF ne d row_quintile(1) [OF p r] this]
    show "income_quintile r = Some ''Q5''"
      by (simp add: row_quintile(2) [OF p r] quintile_labels_def)
  qed
  assume "distinct (map monthly_income_rwf df)"
  then show "\<forall>l \<in> set quintile_labels.
      quintile_size df l = length df div 5 \<or> quintile_size df l = (length df + 4) div 5"
    using quintile_size_balanced [OF p] by blast
qed

theorem income_quintile_binning_witness:
  "distinct (map monthly_income_rwf (merge_inner sample_demographics sample_financial_services))
   \<and> length (merge_inner sample_demographics sample_financial_services) = 6
   \<and> prepare_analysis_data sample_demographics sample_financial_services = Inr sample_df
   \<and> map monthly_income_rwf sample_df = [500000, 60000, 20000, 90000, 150000, 300000]
   \<and> map quintile_rank sample_df = [5, 1, 1, 2, 3, 4]
   \<and> map (quintile_size sample_df) quintile_labels = [2, 1, 1, 1, 1]
   \<and> length sample_df div 5 = 1 \<and> (length sample_df + 4) div 5 = 2"
proof -
  have a: "distinct (map monthly_income_rwf
      (merge_inner sample_demographics sample_financial_services))"
    by (simp add: merge_sample_incomes)
  have b: "length (merge_inner sample_demographics sample_financial_services) = 6"
    using arg_cong [OF merge_sample_incomes, of length] by simp
  have c: "map monthly_income_rwf sample_df = [500000, 60000, 20000, 90000, 150000, 300000]"
    by (simp add: sample_df_def)
  have d: "map quintile_rank sample_df = [5, 1, 1, 2, 3, 4]"
    by (simp add: sample_df_def quintile_rank_def label_rank_def)
  have e: "map (quintile_size sample_df) quintile_labels = [2, 1, 1, 1, 1]"
    by (simp add: sample_df_def quintile_size_def quintile_labels_def)
  have f: "length sample_df div 5 = 1" "(length sample_df + 4) div 5 = 2"
    by (simp_all add: sample_df_def)
  show ?thesis
    using income_quintile_binning [of sample_demographics sample_financial_services]
      a b c d e f prepare_sample
    by simp
qed

section \<open>Properties of the sorting routine\<close>

subsection \<open>Ranges of at most 17 rows: the routine is the stable sort\<close>

lemma mset_shift_in: "mset (shift_in f x ys) = add_mset x (mset ys)"
  by (induction ys) auto

lemma set_shift_in: "set (shift_in f x ys) = insert x (set ys)"
  by (induction ys) auto

lemma sorted_shift_in:
  "sorted (rev (map f ys)) \<Longrightarrow> sorted (rev (map f (shift_in f x ys)))"
  by (induction ys) (auto simp: sorted_append set_shift_in)

lemma filter_shift_in:
  "filter (\<lambda>z. f z = v) (shift_in f x ys) = filter (\<lambda>z. f z = v) (x # ys)"
  by (induction ys) auto

lemma foldl_shift_in:
  "mset (foldl (\<lambda>acc x. shift_in f x acc) acc xs) = mset xs + mset acc"
  "sorted (rev (map f acc)) \<Longrightarrow>
     sorted (rev (map f (foldl (\<lambda>acc x. shift_in f x acc) acc xs)))"
  "filter (\<lambda>z. f z = v) (foldl (\<lambda>acc x. shift_in f x acc) acc xs)
     = rev (filter (\<lambda>z. f z = v) xs) @ filter (\<lambda>z. f z = v) acc"
  by (induction xs arbitrary: acc)
     (simp_all add: mset_shift_in sorted_shift_in filter_shift_in)

lemma insertion_sort_stable: "insertion_sort f xs = sort_key f xs"
proof (rule properties_for_sort_key [symmetric])
  show "mset (insertion_sort f xs) = mset xs"
    by (simp add: insertion_sort_def foldl_shift_in(1))
  show "sorted (map f (insertion_sort f xs))"
    using foldl_shift_in(2) [of f "[]" xs] by (simp add: insertion_sort_def rev_map)
  show "filter (\<lambda>x. f k = f x) (insertion_sort f xs) = filter (\<lambda>x. f k = f x) xs" for k
  proof -
    let ?acc = "foldl (\<lambda>acc x. shift_in f x acc) [] xs"
    have "filter (\<lambda>z. f z = f k) (rev ?acc) = rev (filter (\<lambda>z. f z = f k) ?acc)"
      by (simp add: rev_filter)
    also have "\<dots> = filter (\<lambda>z. f z = f k) xs"
      using foldl_shift_in(3) [of f "f k" "[]" xs] by simp
    finally show ?thesis by (simp add: insertion_sort_def eq_commute [of "f k"])
  qed
qed

lemma aquicksort_short: "length xs \<le> 17 \<Longrightarrow> aquicksort f xs = sort_key f xs"
  by (auto simp: aquicksort_def sortrange.simps insertion_sort_stable)

subsection \<open>The partition step\<close>

lemma scan_up_spec:
  assumes "i \<le> hi"
  shows "i \<le> scan_up f vp xs hi i \<and> scan_up f vp xs hi i \<le> hi
    \<and> (\<forall>k. i \<le> k \<and> k < scan_up f vp xs hi i \<longrightarrow> f (xs ! k) < vp)
    \<and> (scan_up f vp xs hi i < hi \<longrightarrow> \<not> f (xs ! scan_up f vp xs hi i) < vp)"
  using assms
proof (induction f vp xs hi i rule: scan_up.induct)
  case (1 f vp xs hi i)
  show ?case
  proof (cases "i < hi \<and> f (xs ! i) < vp")
    case True
    then have eq: "scan_up f vp xs hi i = scan_up f vp xs hi (Suc i)"
      by (subst scan_up.simps) simp
    from True have "Suc i \<le> hi" by simp
    from "1.IH" [OF True this] True show ?thesis
      unfolding eq by (auto simp: le_Suc_eq less_Suc_eq_le dest: le_neq_implies_less)
  next
    case False
    then have eq: "scan_up f vp xs hi i = i"
      by (subst scan_up.simps) auto
    from False "1.prems" show ?thesis unfolding eq by auto
  qed
qed

lemma scan_down_spec:
  "scan_down f vp xs j \<le> j
    \<and> (\<forall>k. scan_down f vp xs j < k \<and> k \<le> j \<longrightarrow> vp < f (xs ! k))
    \<and> (0 < scan_down f vp xs j \<longrightarrow> \<not> vp < f (xs ! scan_down f vp xs j))"
proof (induction f vp xs j rule: scan_down.induct)
  case (1 f vp xs j)
  show ?case
  proof (cases "0 < j \<and> vp < f (xs ! j)")
    case True
    then have eq: "scan_down f vp xs j = scan_down f vp xs (j - 1)"
      by (subst scan_down.simps) simp
    have "k \<le> j - 1 \<or> k = j" if "k \<le> j" for k using that by linarith
    with "1.IH" [OF True] True show ?thesis
      unfolding eq by (metis diff_le_self le_trans)
  next
    case False
    then have eq: "scan_down f vp xs j = j"
      by (subst scan_down.simps) auto
    from False show ?thesis unfolding eq by auto
  qed
qed

lemma mset_swap_at:
  "i < length xs \<Longrightarrow> j < length xs \<Longrightarrow> mset (swap_at i j xs) = mset xs"
  unfolding swap_at_def by (rule mset_swap)

lemma length_swap_at [simp]: "length (swap_at i j xs) = length xs"
  by (simp add: swap_at_def)

lemma nth_swap_at:
  "i < length xs \<Longrightarrow> j < length xs \<Longrightarrow>
   swap_at i j xs ! k = (if k = j then xs ! i else if k = i then xs ! j else xs ! k)"
  by (simp add: swap_at_def nth_list_update)

lemma hoare_spec:
  assumes "i < j" "j \<le> hi" "hi < length xs"
    and "\<forall>k \<le> i. f (xs ! k) \<le> vp"
    and "\<forall>k. j \<le> k \<and> k < length xs \<longrightarrow> vp \<le> f (xs ! k)"
    and "f (xs ! hi) = vp"
  shows "mset (fst (hoare f vp hi xs i j)) = mset xs
    \<and> length (fst (hoare f vp hi xs i j)) = length xs
    \<and> snd (hoare f vp hi xs i j) \<le> hi
    \<and> (\<forall>k < snd (hoare f vp hi xs i j). f (fst (hoare f vp hi xs i j) ! k) \<le> vp)
    \<and> (\<forall>k. snd (hoare f vp hi xs i j) \<le> k \<and> k < length xs
           \<longrightarrow> vp \<le> f (fst (hoare f vp hi xs i j) ! k))
    \<and> f (fst (hoare f vp hi xs i j) ! hi) = vp"
  using assms
proof (induction f vp hi xs i j rule: hoare.induct)
  case (1 f vp hi xs i j)
  define i' where "i' = scan_up f vp xs hi (Suc i)"
  define j' where "j' = scan_down f vp xs (j - 1)"
  have eq: "hoare f vp hi xs i j
      = (if i' \<ge> j' then (xs, i') else hoare f vp hi (swap_at i' j' xs) i' j')"
    using hoare.simps [of f vp hi xs i j] unfolding i'_def j'_def Let_def .
  have "Suc i \<le> hi" using "1.prems"(1,2) by simp
  from scan_up_spec [OF this, of f vp xs]
  have up: "Suc i \<le> i'" "i' \<le> hi" "\<forall>k. Suc i \<le> k \<and> k < i' \<longrightarrow> f (xs ! k) < vp"
    "i' < hi \<longrightarrow> \<not> f (xs ! i') < vp"
    unfolding i'_def by simp_all
  from scan_down_spec [of f vp xs "j - 1"]
  have down: "j' \<le> j - 1" "\<forall>k. j' < k \<and> k \<le> j - 1 \<longrightarrow> vp < f (xs ! k)"
    "0 < j' \<longrightarrow> \<not> vp < f (xs ! j')"
    unfolding j'_def by simp_all
  have ati': "vp \<le> f (xs ! i')"
    using up(2,4) "1.prems"(6) by (cases "i' < hi") auto
  have atj': "f (xs ! j') \<le> vp"
    using down(3) "1.prems"(4) by (cases "0 < j'") auto
  have below: "f (xs ! k) \<le> vp" if "k < i'" for k
  proof (cases "k \<le> i")
    case True
    then show ?thesis using "1.prems"(4) by simp
  next
    case False
    then have "Suc i \<le> k" by simp
    with up(3) that show ?thesis by force
  qed
  have above: "vp \<le> f (xs ! k)" if "j' < k" "k < length xs" for k
  proof (cases "j \<le> k")
    case True
    then show ?thesis using "1.prems"(5) that by simp
  next
    case False
    then have "k \<le> j - 1" by simp
    with down(2) that show ?thesis by force
  qed
  show ?case
  proof (cases "i' \<ge> j'")
    case True
    have "vp \<le> f (xs ! k)" if "i' \<le> k" "k < length xs" for k
    proof (cases "k = j'")
      case True
      with \<open>j' \<le> i'\<close> that have "k = i'" by simp
      then show ?thesis using ati' by simp
    next
      case False
      with \<open>j' \<le> i'\<close> that have "j' < k" by simp
      then show ?thesis using above that by simp
    qed
    with True below up(2) "1.prems"(6) show ?thesis unfolding eq by simp
  next
    case False
    then have lt: "i' < j'" by simp
    have j'hi: "j' < hi" using down(1) "1.prems"(1,2) by simp
    have bnd: "i' < length xs" "j' < length xs" using lt j'hi "1.prems"(3) by simp_all
    let ?xs = "swap_at i' j' xs"
    have p1: "i' < j'" by (rule lt)
    have p2: "j' \<le> hi" using j'hi by simp
    have p3: "hi < length ?xs" using "1.prems"(3) by simp
    have p4: "\<forall>k \<le> i'. f (?xs ! k) \<le> vp"
      using below atj' lt by (auto simp: nth_swap_at [OF bnd])
    have p5: "\<forall>k. j' \<le> k \<and> k < length ?xs \<longrightarrow> vp \<le> f (?xs ! k)"
      using above ati' lt by (auto simp: nth_swap_at [OF bnd] le_less)
    have p6: "f (?xs ! hi) = vp"
      using "1.prems"(6) lt j'hi by (simp add: nth_swap_at [OF bnd])
    from "1.IH" [OF i'_def j'_def _ p1 p2 p3 p4 p5 p6] False
    have IH: "mset (fst (hoare f vp hi ?xs i' j')) = mset ?xs
      \<and> length (fst (hoare f vp hi ?xs i' j')) = length ?xs
      \<and> snd (hoare f vp hi ?xs i' j') \<le> hi
      \<and> (\<forall>k < snd (hoare f vp hi ?xs i' j'). f (fst (hoare f vp hi ?xs i' j') ! k) \<le> vp)
      \<and> (\<forall>k. snd (hoare f vp hi ?xs i' j') \<le> k \<and> k < length ?xs
             \<longrightarrow> vp \<le> f (fst (hoare f vp hi ?xs i' j') ! k))
      \<and> f (fst (hoare f vp hi ?xs i' j') ! hi) = vp"
      by simp
    have eq': "hoare f vp hi xs i j = hoare f vp hi ?xs i' j'"
      unfolding eq using False by simp
    show ?thesis
      unfolding eq' using IH by (simp add: mset_swap_at [OF bnd])
  qed
qed

lemma partition_range_spec:
  assumes big: "16 < length xs - 1" and part: "partition_range f xs = (ys, p, zs)"
  shows "mset xs = mset ys + {#p#} + mset zs"
    and "\<forall>y \<in> set ys. f y \<le> f p" and "\<forall>z \<in> set zs. f p \<le> f z"
proof -
  define pr where "pr = length xs - 1"
  define pm where "pm = pr div 2"
  define hi where "hi = pr - 1"
  define xs1 where "xs1 = (if f (xs ! pm) < f (xs ! 0) then swap_at pm 0 xs else xs)"
  define xs2 where "xs2 = (if f (xs1 ! pr) < f (xs1 ! pm) then swap_at pr pm xs1 else xs1)"
  define xs3 where "xs3 = (if f (xs2 ! pm) < f (xs2 ! 0) then swap_at pm 0 xs2 else xs2)"
  define vp where "vp = f (xs3 ! pm)"
  define xs4 where "xs4 = swap_at pm hi xs3"
  define h where "h = hoare f vp hi xs4 0 hi"
  define xs5 where "xs5 = fst h"
  define pi where "pi = snd h"
  define xs6 where "xs6 = swap_at pi hi xs5"
  have res: "partition_range f xs = (take pi xs6, xs6 ! pi, drop (Suc pi) xs6)"
    unfolding partition_range_def Let_def case_prod_unfold xs6_def pi_def xs5_def h_def xs4_def
      vp_def xs3_def xs2_def xs1_def hi_def pm_def pr_def by (rule refl)
  have idx: "0 < pm" "pm < hi" "hi < pr" "pr < length xs"
    using big by (simp_all add: pm_def hi_def pr_def)
  then have inh: "hi < length xs" by simp
  have l1: "length xs1 = length xs" by (simp add: xs1_def)
  have l2: "length xs2 = length xs" by (simp add: xs2_def l1)
  have l3: "length xs3 = length xs" by (simp add: xs3_def l2)
  have l4: "length xs4 = length xs" by (simp add: xs4_def l3)
  have b0: "0 < length xs" "pm < length xs" "hi < length xs" "pr < length xs"
    using idx by auto
  have b1: "0 < length xs1" "pm < length xs1" "hi < length xs1" "pr < length xs1"
    unfolding l1 by (rule b0)+
  have b2: "0 < length xs2" "pm < length xs2" "hi < length xs2" "pr < length xs2"
    unfolding l2 by (rule b0)+
  have b3: "0 < length xs3" "pm < length xs3" "hi < length xs3" "pr < length xs3"
    unfolding l3 by (rule b0)+
  have m1: "mset xs1 = mset xs"
    unfolding xs1_def using mset_swap_at [OF b0(2) b0(1)] by simp
  have m2: "mset xs2 = mset xs"
    unfolding xs2_def using mset_swap_at [OF b1(4) b1(2)] m1 by simp
  have m3: "mset xs3 = mset xs"
    unfolding xs3_def using mset_swap_at [OF b2(2) b2(1)] m2 by simp
  have m4: "mset xs4 = mset xs"
    unfolding xs4_def using mset_swap_at [OF b3(2) b3(3)] m3 by simp
  have o1: "f (xs1 ! 0) \<le> f (xs1 ! pm)"
    unfolding xs1_def using idx by (simp add: nth_swap_at [OF b0(2) b0(1)])
  have o2: "f (xs2 ! 0) \<le> f (xs2 ! pr)" "f (xs2 ! pm) \<le> f (xs2 ! pr)"
    unfolding xs2_def using idx o1 by (auto simp: nth_swap_at [OF b1(4) b1(2)])
  have o3: "f (xs3 ! 0) \<le> f (xs3 ! pm)" "f (xs3 ! pm) \<le> f (xs3 ! pr)"
    unfolding xs3_def using idx o2 by (auto simp: nth_swap_at [OF b2(2) b2(1)])
  have q0: "f (xs4 ! 0) \<le> vp"
    unfolding xs4_def vp_def using idx o3(1) by (simp add: nth_swap_at [OF b3(2) b3(3)])
  have qh: "f (xs4 ! hi) = vp"
    unfolding xs4_def vp_def using idx by (simp add: nth_swap_at [OF b3(2) b3(3)])
  have qr: "vp \<le> f (xs4 ! pr)"
    unfolding xs4_def vp_def using idx o3(2) by (simp add: nth_swap_at [OF b3(2) b3(3)])
  have a1: "0 < hi" using idx by simp
  have a3: "hi < length xs4" using inh l4 by simp
  have a4: "\<forall>k \<le> 0. f (xs4 ! k) \<le> vp" using q0 by simp
  have a5: "\<forall>k. hi \<le> k \<and> k < length xs4 \<longrightarrow> vp \<le> f (xs4 ! k)"
  proof (intro allI impI)
    fix k assume k: "hi \<le> k \<and> k < length xs4"
    then have "k = hi \<or> k = pr" using l4 by (auto simp: hi_def pr_def)
    then show "vp \<le> f (xs4 ! k)" using qh qr by auto
  qed
  from hoare_spec [OF a1 order_refl a3 a4 a5 qh]
  have h5: "mset xs5 = mset xs" "length xs5 = length xs" "pi \<le> hi"
    "\<forall>k < pi. f (xs5 ! k) \<le> vp"
    "\<forall>k. pi \<le> k \<and> k < length xs \<longrightarrow> vp \<le> f (xs5 ! k)"
    "f (xs5 ! hi) = vp"
    unfolding h_def [symmetric] xs5_def [symmetric] pi_def [symmetric] by (simp_all add: m4 l4)
  have inp: "pi < length xs5" "hi < length xs5" using h5(2,3) inh by simp_all
  have l6: "length xs6 = length xs" by (simp add: xs6_def h5(2))
  have m6: "mset xs6 = mset xs" by (simp add: xs6_def mset_swap_at [OF inp] h5(1))
  have piv: "f (xs6 ! pi) = vp"
    using h5(6) by (simp add: xs6_def nth_swap_at [OF inp])
  have lo: "f (xs6 ! k) \<le> vp" if "k < pi" for k
    using that h5(3,4) by (simp add: xs6_def nth_swap_at [OF inp])
  have up: "vp \<le> f (xs6 ! k)" if "pi < k" "k < length xs" for k
    using that h5(5) by (simp add: xs6_def nth_swap_at [OF inp])
  from part res have ys: "ys = take pi xs6" and p: "p = xs6 ! pi" and zs: "zs = drop (Suc pi) xs6"
    by simp_all
  have "pi < length xs6" using inp l6 h5(2) by simp
  then have "xs6 = take pi xs6 @ xs6 ! pi # drop (Suc pi) xs6" by (rule id_take_nth_drop)
  then have "mset xs6 = mset ys + {#p#} + mset zs"
    unfolding ys p zs by (metis mset.simps(2) mset_append add_mset_add_single union_assoc
        union_commute)
  then show "mset xs = mset ys + {#p#} + mset zs" using m6 by simp
  show "\<forall>y \<in> set ys. f y \<le> f p"
    unfolding ys p piv using lo \<open>pi < length xs6\<close>
    by (auto simp: in_set_conv_nth)
  show "\<forall>z \<in> set zs. f p \<le> f z"
    unfolding zs p piv using up l6
    by (auto simp: in_set_conv_nth)
qed

subsection \<open>The heap sort\<close>

lemma mset_update_move:
  assumes "i < length xs" "j < length xs" "i \<noteq> j"
  shows "mset (xs[i := xs ! j, j := t]) = mset (xs[i := t])"
proof -
  let ?ys = "xs[i := t]"
  have "mset (?ys[j := ?ys ! i, i := ?ys ! j]) = mset ?ys"
    using assms by (intro mset_swap) simp_all
  moreover have "?ys[j := ?ys ! i, i := ?ys ! j] = xs[i := xs ! j, j := t]"
    using assms by (simp add: list_update_swap [of i j])
  ultimately show ?thesis by simp
qed

lemma sift_final:
  assumes c: "L \<le> c" "c < n" "n \<le> length xs"
    and others: "\<forall>k. L \<le> k \<and> k < n \<and> k \<noteq> c \<longrightarrow> heap_at f n xs k"
    and parent: "\<forall>q. L \<le> q \<and> (c = 2 * q + 1 \<or> c = 2 * q + 2) \<longrightarrow> f tmp \<le> f (xs ! q)"
    and kids: "2 * c + 1 < n \<longrightarrow> f (xs ! (2 * c + 1)) \<le> f tmp"
      "2 * c + 2 < n \<longrightarrow> f (xs ! (2 * c + 2)) \<le> f tmp"
  shows "\<forall>k. L \<le> k \<and> k < n \<longrightarrow> heap_at f n (xs[c := tmp]) k"
proof (intro allI impI)
  fix k assume k: "L \<le> k \<and> k < n"
  show "heap_at f n (xs[c := tmp]) k"
  proof (cases "k = c")
    case True
    then show ?thesis
      using kids c by (simp add: heap_at_def nth_list_update)
  next
    case False
    with others k have h: "heap_at f n xs k" by simp
    show ?thesis
    proof (cases "c = 2 * k + 1 \<or> c = 2 * k + 2")
      case True
      with parent k have "f tmp \<le> f (xs ! k)" by blast
      with h False c show ?thesis
        by (auto simp: heap_at_def nth_list_update)
    next
      case False
      with h \<open>k \<noteq> c\<close> c show ?thesis
        by (auto simp: heap_at_def nth_list_update)
    qed
  qed
qed

lemma sift_spec:
  assumes "i = Suc c" "j = 2 * Suc c" "L \<le> c" "c < n" "n \<le> length xs"
    and "\<forall>k. L \<le> k \<and> k < n \<and> k \<noteq> c \<longrightarrow> heap_at f n xs k"
    and "\<forall>q. L \<le> q \<and> (c = 2 * q + 1 \<or> c = 2 * q + 2) \<longrightarrow>
           f tmp \<le> f (xs ! q)
           \<and> (2 * c + 1 < n \<longrightarrow> f (xs ! (2 * c + 1)) \<le> f (xs ! q))
           \<and> (2 * c + 2 < n \<longrightarrow> f (xs ! (2 * c + 2)) \<le> f (xs ! q))"
  shows "length (sift f n tmp xs i j) = length xs
    \<and> mset (sift f n tmp xs i j) = mset (xs[c := tmp])
    \<and> (\<forall>k. L \<le> k \<and> k < n \<longrightarrow> heap_at f n (sift f n tmp xs i j) k)
    \<and> (\<forall>m. n \<le> m \<longrightarrow> sift f n tmp xs i j ! m = xs ! m)"
  using assms
proof (induction f n tmp xs i j arbitrary: c rule: sift.induct)
  case (1 f n tmp xs i j)
  note c = \<open>L \<le> c\<close> \<open>c < n\<close> \<open>n \<le> length xs\<close>
  note others = "1.prems"(6)
  note parent = "1.prems"(7)
  have ij: "i - 1 = c" "j - 1 = 2 * c + 1" "j = 2 * c + 2" "0 < j"
    using "1.prems"(1,2) by simp_all
  define c' where "c' = (if 2 * c + 2 < n \<and> f (xs ! (2 * c + 1)) < f (xs ! (2 * c + 2))
                          then 2 * c + 2 else 2 * c + 1)"
  define j' where "j' = (if j < n \<and> f (xs ! (j - 1)) < f (xs ! j) then j + 1 else j)"
  have j': "j' = Suc c'" "j' - 1 = c'" unfolding j'_def c'_def ij by simp_all
  have eq: "sift f n tmp xs i j =
      (if 0 < j \<and> j \<le> n then
         (if f tmp < f (xs ! c') then sift f n tmp (xs[c := xs ! c']) j' (j' + j')
          else xs[c := tmp])
       else xs[c := tmp])"
    using sift.simps [of f n tmp xs i j] unfolding Let_def j'_def [symmetric] j'(2) ij(1) .
  have parent': "\<forall>q. L \<le> q \<and> (c = 2 * q + 1 \<or> c = 2 * q + 2) \<longrightarrow> f tmp \<le> f (xs ! q)"
    using parent by blast
  have fin: "length (xs[c := tmp]) = length xs
      \<and> mset (xs[c := tmp]) = mset (xs[c := tmp])
      \<and> (\<forall>k. L \<le> k \<and> k < n \<longrightarrow> heap_at f n (xs[c := tmp]) k)
      \<and> (\<forall>m. n \<le> m \<longrightarrow> xs[c := tmp] ! m = xs ! m)"
    if "2 * c + 1 < n \<longrightarrow> f (xs ! (2 * c + 1)) \<le> f tmp"
      "2 * c + 2 < n \<longrightarrow> f (xs ! (2 * c + 2)) \<le> f tmp"
    using sift_final [OF c others parent' that] c by simp
  show ?case
  proof (cases "j \<le> n")
    case False
    then have "sift f n tmp xs i j = xs[c := tmp]" unfolding eq by simp
    moreover have "\<not> 2 * c + 1 < n" "\<not> 2 * c + 2 < n" using False ij by simp_all
    ultimately show ?thesis using fin by simp
  next
    case jn: True
    then have c1: "2 * c + 1 < n" using ij by simp
    have c'n: "c' < n" "c' \<noteq> c" "c' = 2 * c + 1 \<or> c' = 2 * c + 2"
      using c1 by (auto simp: c'_def)
    have big: "f (xs ! (2 * c + 1)) \<le> f (xs ! c')"
      "2 * c + 2 < n \<longrightarrow> f (xs ! (2 * c + 2)) \<le> f (xs ! c')"
      by (auto simp: c'_def)
    show ?thesis
    proof (cases "f tmp < f (xs ! c')")
      case False
      then have "sift f n tmp xs i j = xs[c := tmp]" unfolding eq using jn ij by simp
      moreover have "2 * c + 1 < n \<longrightarrow> f (xs ! (2 * c + 1)) \<le> f tmp"
        "2 * c + 2 < n \<longrightarrow> f (xs ! (2 * c + 2)) \<le> f tmp"
        using False big by auto
      ultimately show ?thesis using fin by simp
    next
      case lt: True
      let ?xs = "xs[c := xs ! c']"
      have eq': "sift f n tmp xs i j = sift f n tmp ?xs j' (j' + j')"
        unfolding eq using jn ij lt by simp
      have q1: "j' = Suc c'" by (rule j')
      have q2: "j' + j' = 2 * Suc c'" using j' by simp
      have q3: "L \<le> c'" using c c'n by auto
      have q5: "n \<le> length ?xs" using c by simp
      have q6: "\<forall>k. L \<le> k \<and> k < n \<and> k \<noteq> c' \<longrightarrow> heap_at f n ?xs k"
      proof (intro allI impI)
        fix k assume k: "L \<le> k \<and> k < n \<and> k \<noteq> c'"
        show "heap_at f n ?xs k"
        proof (cases "k = c")
          case True
          then show ?thesis
            using big c c'n by (auto simp: heap_at_def nth_list_update)
        next
          case False
          with others k have h: "heap_at f n xs k" by simp
          show ?thesis
          proof (cases "c = 2 * k + 1 \<or> c = 2 * k + 2")
            case True
            with parent k c1 have "f (xs ! (2 * c + 1)) \<le> f (xs ! k)"
              "2 * c + 2 < n \<longrightarrow> f (xs ! (2 * c + 2)) \<le> f (xs ! k)" by blast+
            then have "f (xs ! c') \<le> f (xs ! k)" by (auto simp: c'_def)
            with h False c show ?thesis
              by (auto simp: heap_at_def nth_list_update)
          next
            case False
            with h \<open>k \<noteq> c\<close> c show ?thesis
              by (auto simp: heap_at_def nth_list_update)
          qed
        qed
      qed
      have hc': "heap_at f n xs c'" using others q3 c'n by simp
      have q7: "\<forall>q. L \<le> q \<and> (c' = 2 * q + 1 \<or> c' = 2 * q + 2) \<longrightarrow>
           f tmp \<le> f (?xs ! q)
           \<and> (2 * c' + 1 < n \<longrightarrow> f (?xs ! (2 * c' + 1)) \<le> f (?xs ! q))
           \<and> (2 * c' + 2 < n \<longrightarrow> f (?xs ! (2 * c' + 2)) \<le> f (?xs ! q))"
      proof (intro allI impI)
        fix q assume q: "L \<le> q \<and> (c' = 2 * q + 1 \<or> c' = 2 * q + 2)"
        with c'n have "q = c" by auto
        then show "f tmp \<le> f (?xs ! q)
           \<and> (2 * c' + 1 < n \<longrightarrow> f (?xs ! (2 * c' + 1)) \<le> f (?xs ! q))
           \<and> (2 * c' + 2 < n \<longrightarrow> f (?xs ! (2 * c' + 2)) \<le> f (?xs ! q))"
          using lt hc' c c'n by (auto simp: heap_at_def nth_list_update)
      qed
      have jcond: "0 < j \<and> j \<le> n" using jn ij by simp
      have lt': "f tmp < f (xs ! (j' - 1))" using lt j' by simp
      note hyp = "1.IH" [OF jcond j'_def lt', unfolded ij(1) j'(2)]
      from hyp [OF q1 q2 q3 c'n(1) q5 q6 q7]
      have IH: "length (sift f n tmp ?xs j' (j' + j')) = length ?xs
        \<and> mset (sift f n tmp ?xs j' (j' + j')) = mset (?xs[c' := tmp])
        \<and> (\<forall>k. L \<le> k \<and> k < n \<longrightarrow> heap_at f n (sift f n tmp ?xs j' (j' + j')) k)
        \<and> (\<forall>m. n \<le> m \<longrightarrow> sift f n tmp ?xs j' (j' + j') ! m = ?xs ! m)"
        .
      have "mset (?xs[c' := tmp]) = mset (xs[c := tmp])"
        using c c'n by (intro mset_update_move) simp_all
      with IH c show ?thesis unfolding eq' by simp
    qed
  qed
qed

lemma heapify_spec:
  assumes "l \<le> n" "n \<le> length xs" "\<forall>k. l \<le> k \<and> k < n \<longrightarrow> heap_at f n xs k"
  shows "length (heapify f n xs l) = length xs
    \<and> mset (heapify f n xs l) = mset xs
    \<and> (\<forall>k < n. heap_at f n (heapify f n xs l) k)"
  using assms
proof (induction l arbitrary: xs)
  case 0
  then show ?case by simp
next
  case (Suc l)
  let ?xs = "sift f n (xs ! l) xs (Suc l) (2 * Suc l)"
  have a: "l < n" using Suc.prems(1) by simp
  have b: "\<forall>k. l \<le> k \<and> k < n \<and> k \<noteq> l \<longrightarrow> heap_at f n xs k"
  proof (intro allI impI)
    fix k assume "l \<le> k \<and> k < n \<and> k \<noteq> l"
    then have "Suc l \<le> k \<and> k < n" by linarith
    with Suc.prems(3) show "heap_at f n xs k" by blast
  qed
  have c: "\<forall>q. l \<le> q \<and> (l = 2 * q + 1 \<or> l = 2 * q + 2) \<longrightarrow>
       f (xs ! l) \<le> f (xs ! q)
       \<and> (2 * l + 1 < n \<longrightarrow> f (xs ! (2 * l + 1)) \<le> f (xs ! q))
       \<and> (2 * l + 2 < n \<longrightarrow> f (xs ! (2 * l + 2)) \<le> f (xs ! q))"
    by auto
  from sift_spec [OF refl refl order_refl a Suc.prems(2) b c]
  have s: "length ?xs = length xs" "mset ?xs = mset (xs[l := xs ! l])"
    "\<forall>k. l \<le> k \<and> k < n \<longrightarrow> heap_at f n ?xs k"
    by simp_all
  have "l \<le> n" using a by simp
  moreover have "n \<le> length ?xs" using s(1) Suc.prems(2) by simp
  ultimately have "length (heapify f n ?xs l) = length ?xs
    \<and> mset (heapify f n ?xs l) = mset ?xs
    \<and> (\<forall>k < n. heap_at f n (heapify f n ?xs l) k)"
    using s(3) by (rule Suc.IH)
  then show ?case using s(1,2) by simp
qed

lemma heap_max:
  assumes "\<forall>k < n. heap_at f n xs k" "k < n"
  shows "f (xs ! k) \<le> f (xs ! 0)"
  using assms(2)
proof (induction k rule: less_induct)
  case (less k)
  show ?case
  proof (cases "k = 0")
    case True
    then show ?thesis by simp
  next
    case False
    define q where "q = (k - 1) div 2"
    have q: "q < k" "k = 2 * q + 1 \<or> k = 2 * q + 2"
      using False by (auto simp: q_def)
    then have "q < n" using less.prems by simp
    with assms(1) have "heap_at f n xs q" by simp
    then have "f (xs ! k) \<le> f (xs ! q)"
      using q(2) less.prems by (auto simp: heap_at_def)
    also have "\<dots> \<le> f (xs ! 0)" using less.IH [OF q(1) \<open>q < n\<close>] .
    finally show ?thesis .
  qed
qed

lemma heap_extract_spec:
  assumes "n \<le> length xs" "\<forall>k < n. heap_at f n xs k" "sorted (map f (drop n xs))"
    and "\<forall>x \<in> set (take n xs). \<forall>y \<in> set (drop n xs). f x \<le> f y"
  shows "mset (heap_extract f xs n) = mset xs \<and> sorted (map f (heap_extract f xs n))"
  using assms
proof (induction f xs n rule: heap_extract.induct)
  case (1 f xs)
  then show ?case by simp
next
  case (2 f xs)
  have "sorted (map f (take 1 xs))" by (rule sorted01) simp
  with "2.prems"(3,4) have "sorted (map f (take 1 xs @ drop 1 xs))"
    unfolding map_append sorted_append by auto
  then show ?case by simp
next
  case (3 f xs m)
  define top where "top = xs ! 0"
  define xs' where "xs' = xs[Suc m := top]"
  define S where "S = sift f (Suc m) (xs ! Suc m) xs' 1 2"
  have len: "Suc (Suc m) \<le> length xs" by (rule "3.prems"(1))
  have l': "length xs' = length xs" by (simp add: xs'_def)
  have a: "(0::nat) < Suc m" by simp
  have b: "Suc m \<le> length xs'" using len l' by simp
  have c: "\<forall>k. 0 \<le> k \<and> k < Suc m \<and> k \<noteq> 0 \<longrightarrow> heap_at f (Suc m) xs' k"
  proof (intro allI impI)
    fix k assume k: "0 \<le> k \<and> k < Suc m \<and> k \<noteq> 0"
    then have "heap_at f (Suc (Suc m)) xs k" using "3.prems"(2) by simp
    then show "heap_at f (Suc m) xs' k"
      using k by (auto simp: heap_at_def xs'_def nth_list_update)
  qed
  have d: "\<forall>q. 0 \<le> q \<and> ((0::nat) = 2 * q + 1 \<or> (0::nat) = 2 * q + 2) \<longrightarrow>
       f (xs ! Suc m) \<le> f (xs' ! q)
       \<and> (2 * 0 + 1 < Suc m \<longrightarrow> f (xs' ! (2 * 0 + 1)) \<le> f (xs' ! q))
       \<and> (2 * 0 + 2 < Suc m \<longrightarrow> f (xs' ! (2 * 0 + 2)) \<le> f (xs' ! q))"
    by simp
  have i1: "(1::nat) = Suc 0" and j2: "(2::nat) = 2 * Suc 0" by simp_all
  from sift_spec [OF i1 j2 order_refl a b c d]
  have s: "length S = length xs" "mset S = mset (xs'[0 := xs ! Suc m])"
    "\<forall>k < Suc m. heap_at f (Suc m) S k" "\<forall>i. Suc m \<le> i \<longrightarrow> S ! i = xs' ! i"
    unfolding S_def [symmetric] by (simp_all add: l')
  have "xs'[0 := xs ! Suc m] = xs[Suc m := xs ! 0, 0 := xs ! Suc m]"
    by (simp add: xs'_def top_def)
  moreover have "mset (xs[Suc m := xs ! 0, 0 := xs ! Suc m]) = mset xs"
    using len by (intro mset_swap) auto
  ultimately have mS: "mset S = mset xs" using s(2) by simp
  have dS: "drop (Suc m) S = top # drop (Suc (Suc m)) xs"
  proof (rule nth_equalityI)
    show "length (drop (Suc m) S) = length (top # drop (Suc (Suc m)) xs)"
      using len s(1) by simp
  next
    fix i assume "i < length (drop (Suc m) S)"
    then have i: "Suc m + i < length xs" using s(1) by simp
    have "drop (Suc m) S ! i = xs' ! (Suc m + i)" using s(1,4) i by simp
    also have "\<dots> = (top # drop (Suc (Suc m)) xs) ! i"
      using i by (cases i) (simp_all add: xs'_def)
    finally show "drop (Suc m) S ! i = (top # drop (Suc (Suc m)) xs) ! i" .
  qed
  have topin: "top \<in> set (take (Suc (Suc m)) xs)"
  proof -
    have "xs \<noteq> []" using len by auto
    then show ?thesis by (simp add: top_def take_Suc hd_conv_nth)
  qed
  have topmax: "f x \<le> f top" if "x \<in> set (take (Suc (Suc m)) xs)" for x
  proof -
    from that obtain k where k: "k < Suc (Suc m)" "x = xs ! k"
      using len by (auto simp: in_set_conv_nth)
    with heap_max [OF "3.prems"(2) k(1)] show ?thesis by (simp add: top_def)
  qed
  have e1: "mset (take (Suc m) S) + mset (drop (Suc m) S) = mset xs"
    unfolding mS [symmetric] by (metis append_take_drop_id mset_append)
  have e2: "mset (take (Suc (Suc m)) xs) + mset (drop (Suc (Suc m)) xs) = mset xs"
    by (metis append_take_drop_id mset_append)
  have "add_mset top (mset (take (Suc m) S)) + mset (drop (Suc (Suc m)) xs)
      = mset (take (Suc (Suc m)) xs) + mset (drop (Suc (Suc m)) xs)"
    using e1 unfolding e2 dS by simp
  then have "add_mset top (mset (take (Suc m) S)) = mset (take (Suc (Suc m)) xs)"
    by (rule add_right_imp_eq)
  then have sub: "set (take (Suc m) S) \<subseteq> set (take (Suc (Suc m)) xs)"
    by (metis set_mset_mset set_mset_add_mset_insert subset_insertI)
  have p1: "Suc m \<le> length S" using s(1) len by simp
  have p3: "sorted (map f (drop (Suc m) S))"
    unfolding dS using "3.prems"(3,4) topin by auto
  have p4: "\<forall>x \<in> set (take (Suc m) S). \<forall>y \<in> set (drop (Suc m) S). f x \<le> f y"
    unfolding dS using sub topmax "3.prems"(4) by auto
  note IH = "3.IH" [folded top_def, folded xs'_def, folded S_def]
  have eq: "heap_extract f xs (Suc (Suc m)) = heap_extract f S (Suc m)"
    by (simp add: S_def xs'_def top_def)
  from IH [OF p1 s(3) p3 p4] mS show ?case unfolding eq by simp
qed

lemma aheapsort_spec:
  "mset (aheapsort f xs) = mset xs \<and> sorted (map f (aheapsort f xs))"
proof -
  let ?n = "length xs"
  let ?H = "heapify f ?n xs (?n div 2)"
  have "\<forall>k. ?n div 2 \<le> k \<and> k < ?n \<longrightarrow> heap_at f ?n xs k"
    by (auto simp: heap_at_def)
  from heapify_spec [OF _ order_refl this]
  have h: "length ?H = ?n" "mset ?H = mset xs" "\<forall>k < ?n. heap_at f ?n ?H k"
    by simp_all
  have "mset (heap_extract f ?H ?n) = mset ?H \<and> sorted (map f (heap_extract f ?H ?n))"
    using h by (intro heap_extract_spec) simp_all
  then show ?thesis by (simp add: aheapsort_def h(2))
qed

subsection \<open>The routine sorts\<close>

lemma sortrange_spec:
  "mset (sortrange f popped cdepth xs) = mset xs
   \<and> sorted (map f (sortrange f popped cdepth xs))"
proof (induction f popped cdepth xs rule: sortrange.induct)
  case (1 f popped cdepth xs)
  show ?case
  proof (cases "popped \<and> cdepth < 0")
    case True
    then have "sortrange f popped cdepth xs = aheapsort f xs"
      by (subst sortrange.simps) simp
    then show ?thesis by (simp add: aheapsort_spec)
  next
    case heap: False
    show ?thesis
    proof (cases "16 < length xs - 1")
      case False
      with heap have "sortrange f popped cdepth xs = insertion_sort f xs"
        by (subst sortrange.simps) auto
      then show ?thesis by (simp add: insertion_sort_stable)
    next
      case big: True
      obtain ys p zs where part: "partition_range f xs = (ys, p, zs)"
        by (cases "partition_range f xs") auto
      note spec = partition_range_spec [OF big part]
      have glue: "mset (A @ p # B) = mset xs \<and> sorted (map f (A @ p # B))"
        if "mset A = mset ys \<and> sorted (map f A)" "mset B = mset zs \<and> sorted (map f B)"
        for A B
      proof -
        have "set A = set ys" "set B = set zs"
          using that by (auto dest: mset_eq_setD)
        then have "\<forall>a \<in> set A. f a \<le> f p" "\<forall>b \<in> set B. f p \<le> f b"
          using spec(2,3) by simp_all
        then have "sorted (map f (A @ p # B))"
          using that unfolding map_append sorted_append by fastforce
        moreover have "mset (A @ p # B) = mset xs"
          using that spec(1) by simp
        ultimately show ?thesis by simp
      qed
      show ?thesis
      proof (cases "length ys < length zs")
        case True
        from heap big part True
        have eq: "sortrange f popped cdepth xs
            = sortrange f False (cdepth - 1) ys @ p # sortrange f True (cdepth - 1) zs"
          by (subst sortrange.simps) auto
        show ?thesis unfolding eq
          using "1.IH"(1) [OF heap big part [symmetric] refl True]
            "1.IH"(2) [OF heap big part [symmetric] refl True]
          by (rule glue)
      next
        case False
        from heap big part False
        have eq: "sortrange f popped cdepth xs
            = sortrange f True (cdepth - 1) ys @ p # sortrange f False (cdepth - 1) zs"
          by (subst sortrange.simps) auto
        show ?thesis unfolding eq
          using "1.IH"(3) [OF heap big part [symmetric] refl False]
            "1.IH"(4) [OF heap big part [symmetric] refl False]
          by (rule glue)
      qed
    qed
  qed
qed

lemma aquicksort_sorts:
  "mset (aquicksort f xs) = mset xs" "sorted (map f (aquicksort f xs))"
  by (simp_all add: aquicksort_def sortrange_spec)

lemma aquicksort_contract: "sort_contract aquicksort"
  by (simp add: sort_contract_def aquicksort_sorts)

subsection \<open>Eighteen rows with equal keys\<close>

lemma sort_key_tied:
  assumes "\<forall>x \<in> set xs. f x = c"
  shows "sort_key f xs = xs"
proof -
  have "filter (\<lambda>y. f y = c) (sort_key f xs) = filter (\<lambda>y. f y = c) xs"
    by (rule sort_key_stable)
  moreover have "filter (\<lambda>y. f y = c) (sort_key f xs) = sort_key f xs"
    using assms by (simp add: filter_id_conv)
  moreover have "filter (\<lambda>y. f y = c) xs = xs"
    using assms by (simp add: filter_id_conv)
  ultimately show ?thesis by simp
qed

lemma partition_range_tied:
  assumes "list_all (\<lambda>x. f x = c)
    [a01, a02, a03, a04, a05, a06, a07, a08, a09, a10, a11, a12, a13, a14, a15, a16, a17, a18]"
  shows "partition_range f
      [a01, a02, a03, a04, a05, a06, a07, a08, a09, a10, a11, a12, a13, a14, a15, a16, a17, a18]
    = ([a01, a16, a15, a14, a13, a12, a11, a10], a09,
       [a08, a07, a06, a05, a04, a03, a02, a17, a18])"
  using assms
  by (simp add: partition_range_def hoare.simps scan_up.simps scan_down.simps swap_at_def Let_def)

lemma aquicksort_tied:
  assumes "list_all (\<lambda>x. f x = c)
    [a01, a02, a03, a04, a05, a06, a07, a08, a09, a10, a11, a12, a13, a14, a15, a16, a17, a18]"
  shows "aquicksort f
      [a01, a02, a03, a04, a05, a06, a07, a08, a09, a10, a11, a12, a13, a14, a15, a16, a17, a18]
    = [a01, a16, a15, a14, a13, a12, a11, a10, a09, a08, a07, a06, a05, a04, a03, a02, a17, a18]"
proof -
  have msb: "npy_get_msb (length
      [a01, a02, a03, a04, a05, a06, a07, a08, a09, a10, a11, a12, a13, a14, a15, a16, a17, a18])
      = 4"
    by (simp add: npy_get_msb.simps)
  have l: "sortrange f b d [a01, a16, a15, a14, a13, a12, a11, a10]
      = [a01, a16, a15, a14, a13, a12, a11, a10]" if "0 \<le> d" for b d
    using assms that
    by (subst sortrange.simps) (simp add: insertion_sort_stable sort_key_tied [of _ f c])
  have r: "sortrange f b d [a08, a07, a06, a05, a04, a03, a02, a17, a18]
      = [a08, a07, a06, a05, a04, a03, a02, a17, a18]" if "0 \<le> d" for b d
    using assms that
    by (subst sortrange.simps) (simp add: insertion_sort_stable sort_key_tied [of _ f c])
  show ?thesis
    unfolding aquicksort_def msb
    by (subst sortrange.simps) (simp add: partition_range_tied [OF assms] l r)
qed

section \<open>Properties of the provincial view\<close>

lemma province_groups_rated:
  assumes "s \<in> set (province_groups rs)"
  shows "ps_any_formal_service s \<noteq> None"
  using assms
  by (auto simp: province_groups_def groupby_def bool_mean_def mean_def filter_empty_conv)


lemma provincial_run:
  "show_provincial_analysis srt df
     = Inr (srt (\<lambda>s. the (ps_any_formal_service s)) (province_groups (rows df)), df)"
proof -
  let ?g = "province_groups (rows df)"
  have all: "\<forall>s \<in> set ?g. ps_any_formal_service s \<noteq> None"
    using province_groups_rated by blast
  then have f1: "filter (\<lambda>s. ps_any_formal_service s \<noteq> None) ?g = ?g"
    and f2: "filter (\<lambda>s. ps_any_formal_service s = None) ?g = []"
    by (simp_all add: filter_id_conv filter_empty_conv)
  show ?thesis
    unfolding show_provincial_analysis_def sort_values_def f1 f2 by simp
qed

lemma provincial_output:
  "map_sum id (\<lambda>(out, df'). map (\<lambda>s. (ps_province s, ps_any_formal_service s)) out)
     (show_provincial_analysis srt df)
   = Inr (map (\<lambda>s. (ps_province s, ps_any_formal_service s))
        (srt (\<lambda>s. the (ps_any_formal_service s)) (province_groups (rows df))))"
  by (simp add: provincial_run)

lemma sample_province_groups:
  "map (\<lambda>s. (ps_province s, ps_any_formal_service s)) (province_groups sample_df)
     = [(''Eastern'', Some 1), (''Kigali'', Some 1), (''Northern'', Some 1),
        (''Southern'', Some 0), (''Western'', Some 1)]"
  by (simp add: province_groups_def groupby_def sample_df_def bool_mean_def mean_def)

lemma province_groups_provinces:
  "map ps_province (province_groups rs) = sort (remdups (map province rs))"
  by (simp add: province_groups_def groupby_def comp_def)

lemma province_groups_rate:
  assumes "s \<in> set (province_groups rs)"
  shows "ps_any_formal_service s
    = bool_mean any_formal_service (filter (\<lambda>r. province r = ps_province s) rs)"
  using assms by (auto simp: province_groups_def groupby_def)

lemma province_groups_length:
  "length (province_groups rs) = length (remdups (map province rs))"
  by (simp add: province_groups_def groupby_def)

text \<open>
  Claim C7, as amended. With numpy's generic quicksort, for every filtered view the
  provincial view returns, and leaves the frame as it was; its table is a rearrangement
  of the per-province statistics, which are grouped in ascending order of the province
  name; each row of the table carries the mean of \<open>any_formal_service\<close> over the
  respondents of its province (never NaN); and these inclusion rates are in ascending
  order down the table. When the view has at most 17 provinces, provinces with equal
  rates keep their group order.
\<close>

theorem provincial_view_order:
  "\<exists>out. show_provincial_analysis aquicksort df = Inr (out, df)
    \<and> mset out = mset (province_groups (rows df))
    \<and> map ps_province (province_groups (rows df)) = sort (remdups (map province (rows df)))
    \<and> (\<forall>s \<in> set out.
          ps_any_formal_service s
            = bool_mean any_formal_service
                (filter (\<lambda>r. province r = ps_province s) (rows df))
          \<and> ps_any_formal_service s \<noteq> None)
    \<and> sorted (map (\<lambda>s. the (ps_any_formal_service s)) out)
    \<and> (length (remdups (map province (rows df))) \<le> 17 \<longrightarrow>
         (\<forall>m. filter (\<lambda>s. ps_any_formal_service s = m) out
             = filter (\<lambda>s. ps_any_formal_service s = m) (province_groups (rows df))))"
proof -
  let ?g = "province_groups (rows df)"
  let ?f = "\<lambda>s. the (ps_any_formal_service s)"
  let ?out = "aquicksort ?f ?g"
  have all: "\<forall>s \<in> set ?g. ps_any_formal_service s \<noteq> None"
    using province_groups_rated by blast
  have run: "show_provincial_analysis aquicksort df = Inr (?out, df)"
    by (rule provincial_run)
  have perm: "mset ?out = mset ?g" by (rule aquicksort_sorts)
  then have same: "set ?out = set ?g" by (rule mset_eq_setD)
  have rate: "\<forall>s \<in> set ?out.
      ps_any_formal_service s
        = bool_mean any_formal_service (filter (\<lambda>r. province r = ps_province s) (rows df))
      \<and> ps_any_formal_service s \<noteq> None"
    unfolding same using all province_groups_rate by auto
  have asc: "sorted (map ?f ?out)" by (rule aquicksort_sorts)
  have ties: "filter (\<lambda>s. ps_any_formal_service s = m) ?out
      = filter (\<lambda>s. ps_any_formal_service s = m) ?g"
    if few: "length (remdups (map province (rows df))) \<le> 17" for m
  proof -
    have "length ?g \<le> 17" using few by (simp add: province_groups_length)
    then have out: "?out = sort_key ?f ?g" by (rule aquicksort_short)
    show ?thesis
    proof (cases m)
      case None
      then show ?thesis using all same by (simp add: filter_empty_conv)
    next
      case (Some v)
      have "filter (\<lambda>s. ps_any_formal_service s = Some v) ?out = filter (\<lambda>s. ?f s = v) ?out"
        using all same by (intro filter_cong) auto
      also have "\<dots> = filter (\<lambda>s. ?f s = v) ?g" unfolding out by (rule sort_key_stable)
      also have "\<dots> = filter (\<lambda>s. ps_any_formal_service s = Some v) ?g"
        using all by (intro filter_cong) auto
      finally show ?thesis unfolding Some .
    qed
  qed
  show ?thesis
    using run perm province_groups_provinces [of "rows df"] rate asc ties by blast
qed

theorem provincial_view_order_witness:
  "length (remdups (map province (rows sample_view))) \<le> 17
   \<and> map (\<lambda>s. (ps_province s, ps_any_formal_service s)) (province_groups (rows sample_view))
       = [(''Eastern'', Some 1), (''Kigali'', Some 1), (''Northern'', Some 1),
          (''Southern'', Some 0), (''Western'', Some 1)]
   \<and> map_sum id (\<lambda>(out, df'). map (\<lambda>s. (ps_province s, ps_any_formal_service s)) out)
        (show_provincial_analysis aquicksort sample_view)
       = Inr [(''Southern'', Some 0), (''Eastern'', Some 1), (''Kigali'', Some 1),
              (''Northern'', Some 1), (''Western'', Some 1)]"
proof -
  have n: "length (remdups (map province (rows sample_view))) \<le> 17"
    by (simp add: sample_view_def sample_df_def)
  have g: "map (\<lambda>s. (ps_province s, ps_any_formal_service s)) (province_groups (rows sample_view))
      = [(''Eastern'', Some 1), (''Kigali'', Some 1), (''Northern'', Some 1),
         (''Southern'', Some 0), (''Western'', Some 1)]"
    using sample_province_groups by (simp add: sample_view_def)
  then obtain a b c d e where gs: "province_groups (rows sample_view) = [a, b, c, d, e]"
    and k: "ps_province a = ''Eastern''" "ps_any_formal_service a = Some 1"
      "ps_province b = ''Kigali''" "ps_any_formal_service b = Some 1"
      "ps_province c = ''Northern''" "ps_any_formal_service c = Some 1"
      "ps_province d = ''Southern''" "ps_any_formal_service d = Some 0"
      "ps_province e = ''Western''" "ps_any_formal_service e = Some 1"
    by (auto simp: map_eq_Cons_conv)
  have out: "map_sum id (\<lambda>(out, df'). map (\<lambda>s. (ps_province s, ps_any_formal_service s)) out)
        (show_provincial_analysis aquicksort sample_view)
       = Inr [(''Southern'', Some 0), (''Eastern'', Some 1), (''Kigali'', Some 1),
              (''Northern'', Some 1), (''Western'', Some 1)]"
    unfolding provincial_output gs by (simp add: aquicksort_short k)
  show ?thesis
    using provincial_view_order [of sample_view] n g out by simp
qed

subsection \<open>Eighteen provinces with equal rates\<close>

lemma upt_1_19:
  "[1..<19] = [1, 2, 3, 4, 5, 6, 7, 8, 9, 10, 11, 12, 13, 14, 15, 16, 17, 18]"
  by code_simp

lemma eighteen_merged:
  "merge_inner eighteen_demographics eighteen_services
     = map (\<lambda>(i, p).
         \<lparr>respondent_id = i, province = p, urban_rural = ''Urban'', age = 30,
          education = ''Secondary'', monthly_income_rwf = of_int i * 10000,
          has_bank_account = 1, uses_mobile_money = 0, has_savings = 0, has_loan = 0,
          uses_insurance = 0, financial_literacy_score = 5\<rparr>)
       (zip [1, 2, 3, 4, 5, 6, 7, 8, 9, 10, 11, 12, 13, 14, 15, 16, 17, 18] eighteen_provinces)"
  by (simp add: merge_inner_def join_rows_def eighteen_demographics_def eighteen_services_def
      eighteen_provinces_def upt_1_19 enumerate_eq_zip upt_rec [of _ "numeral _"]
      upt_rec [of "Suc _"])

lemma eighteen_incomes:
  "map monthly_income_rwf (merge_inner eighteen_demographics eighteen_services)
     = [10000, 20000, 30000, 40000, 50000, 60000, 70000, 80000, 90000, 100000, 110000,
        120000, 130000, 140000, 150000, 160000, 170000, 180000]"
  unfolding eighteen_merged by (simp add: eighteen_provinces_def)

lemma eighteen_edges:
  "quintile_edges [10000, 20000, 30000, 40000, 50000, 60000, 70000, 80000, 90000, 100000,
      110000, 120000, 130000, 140000, 150000, 160000, 170000, 180000]
     = [10000, 44000, 78000, 112000, 146000, 180000]"
  by (simp add: quintile_edges_def quantile_def upt_6 Let_def)

lemma eighteen_prepared:
  "prepare_analysis_data eighteen_demographics eighteen_services
     = Inr (map (\<lambda>m. derive_row m
                   (bin_label [10000, 44000, 78000, 112000, 146000, 180000] quintile_labels True
                      (monthly_income_rwf m)))
              (merge_inner eighteen_demographics eighteen_services))"
proof -
  let ?m = "merge_inner eighteen_demographics eighteen_services"
  let ?x = "map monthly_income_rwf ?m"
  let ?lab = "bin_label [10000, 44000, 78000, 112000, 146000, 180000] quintile_labels True"
  have "qcut ?x 5 quintile_labels = Inr (map ?lab ?x)"
    unfolding qcut_5 eighteen_incomes eighteen_edges by simp
  moreover have "zip ?m (map ?lab ?x) = map (\<lambda>m. (m, ?lab (monthly_income_rwf m))) ?m"
    by (simp add: zip_map2 zip_same_conv_map comp_def)
  ultimately show ?thesis
    by (simp add: prepare_analysis_data_def Let_def comp_def)
qed

lemma eighteen_groups:
  assumes "prepare_analysis_data eighteen_demographics eighteen_services = Inr df"
  shows "province_groups (rows (apply_filters df eighteen_provinces ''All''))
     = map (\<lambda>(i, p).
         \<lparr>ps_province = p, ps_any_formal_service = Some 1, ps_uses_mobile_money = Some 0,
          ps_has_bank_account = Some 1, ps_monthly_income_rwf = Some (of_int i * 10000),
          ps_financial_literacy_score = Some 5\<rparr>)
       (zip [1, 2, 3, 4, 5, 6, 7, 8, 9, 10, 11, 12, 13, 14, 15, 16, 17, 18] eighteen_provinces)"
proof -
  from assms have df: "df = map (\<lambda>m. derive_row m
      (bin_label [10000, 44000, 78000, 112000, 146000, 180000] quintile_labels True
         (monthly_income_rwf m)))
      (merge_inner eighteen_demographics eighteen_services)"
    unfolding eighteen_prepared by simp
  show ?thesis
    unfolding df eighteen_merged
    by (simp add: eighteen_provinces_def apply_filters_def Let_def province_groups_def
        groupby_def bool_mean_def flag_mean_def num_mean_def mean_def)
qed

text \<open>
  The claim as stated fails on a view with eighteen provinces. In the input files
  \<open>eighteen_demographics\<close> and \<open>eighteen_services\<close> every province has one respondent, who
  has a bank account, so all inclusion rates are 1 and the group order is P01 to P18. The
  partition step of the routine exchanges rows with equal keys, and the table of the
  provincial view has P16 down to P02 between P01 and P17.
\<close>

theorem provincial_ties_counterexample:
  "map_sum id
     (\<lambda>(out, s). (provincial_table out,
                   map ps_province (province_groups (rows (filtered_df_final s)))))
     (main aquicksort eighteen_demographics eighteen_services
        ''Provincial Analysis'' eighteen_provinces ''All'')
   = Inr ([(''P01'', Some 1), (''P16'', Some 1), (''P15'', Some 1), (''P14'', Some 1),
           (''P13'', Some 1), (''P12'', Some 1), (''P11'', Some 1), (''P10'', Some 1),
           (''P09'', Some 1), (''P08'', Some 1), (''P07'', Some 1), (''P06'', Some 1),
           (''P05'', Some 1), (''P04'', Some 1), (''P03'', Some 1), (''P02'', Some 1),
           (''P17'', Some 1), (''P18'', Some 1)],
          [''P01'', ''P02'', ''P03'', ''P04'', ''P05'', ''P06'', ''P07'', ''P08'', ''P09'',
           ''P10'', ''P11'', ''P12'', ''P13'', ''P14'', ''P15'', ''P16'', ''P17'', ''P18''])"
proof -
  obtain df where df: "prepare_analysis_data eighteen_demographics eighteen_services = Inr df"
    using eighteen_prepared by blast
  define view where "view = apply_filters df eighteen_provinces ''All''"
  let ?f = "\<lambda>s. the (ps_any_formal_service s)"
  have g: "province_groups (rows view)
     = map (\<lambda>(i, p).
         \<lparr>ps_province = p, ps_any_formal_service = Some 1, ps_uses_mobile_money = Some 0,
          ps_has_bank_account = Some 1, ps_monthly_income_rwf = Some (of_int i * 10000),
          ps_financial_literacy_score = Some 5\<rparr>)
       (zip [1, 2, 3, 4, 5, 6, 7, 8, 9, 10, 11, 12, 13, 14, 15, 16, 17, 18] eighteen_provinces)"
    unfolding view_def by (rule eighteen_groups [OF df])
  have names: "map ps_province (province_groups (rows view)) = eighteen_provinces"
    unfolding g by (simp add: eighteen_provinces_def)
  have table: "map (\<lambda>s. (ps_province s, ps_any_formal_service s))
       (aquicksort ?f (province_groups (rows view)))
     = [(''P01'', Some 1), (''P16'', Some 1), (''P15'', Some 1), (''P14'', Some 1),
        (''P13'', Some 1), (''P12'', Some 1), (''P11'', Some 1), (''P10'', Some 1),
        (''P09'', Some 1), (''P08'', Some 1), (''P07'', Some 1), (''P06'', Some 1),
        (''P05'', Some 1), (''P04'', Some 1), (''P03'', Some 1), (''P02'', Some 1),
        (''P17'', Some 1), (''P18'', Some 1)]"
    unfolding g eighteen_provinces_def
    by (simp add: aquicksort_tied [where f = ?f and c = 1])
  have "main aquicksort eighteen_demographics eighteen_services
        ''Provincial Analysis'' eighteen_provinces ''All''
      = Inr (Provincial (aquicksort ?f (province_groups (rows view))),
             \<lparr>df_final = df, filtered_df_final = view\<rparr>)"
    by (simp add: main_def df dispatch_def with_output_def provincial_run view_def)
  then show ?thesis
    by (simp add: provincial_table_def table names eighteen_provinces_def)
qed

end
